theory Spec2Isabelle
  imports Complex_Main
begin

section \<open>Strings\<close>

text \<open>
  A Python \<open>str\<close> is modelled as a \<open>string\<close>: a list of 8-bit characters, each
  standing for the Unicode code point of the same number. Texts are therefore the ones
  whose code points lie below 256, and the character classes below are Python's classes
  cut down to that range.
\<close>

definition is_space :: "char \<Rightarrow> bool" where
  \<comment> \<open>\<open>str.isspace\<close>, the class \<open>\s\<close> of \<open>re\<close>, and what \<open>strip\<close> and \<open>split\<close> remove\<close>
  "is_space c \<longleftrightarrow>
     c \<in> set [CHR 0x09, CHR 0x0A, CHR 0x0B, CHR 0x0C, CHR 0x0D, CHR 0x1C, CHR 0x1D,
              CHR 0x1E, CHR 0x1F, CHR 0x20, CHR 0x85, CHR 0xA0]"

definition is_digit :: "char \<Rightarrow> bool" where
  \<comment> \<open>\<open>[0-9]\<close>; below 256 also \<open>\d\<close>\<close>
  "is_digit c \<longleftrightarrow> 48 \<le> (of_char c :: nat) \<and> (of_char c :: nat) \<le> 57"

definition is_ascii_upper :: "char \<Rightarrow> bool" where
  "is_ascii_upper c \<longleftrightarrow> 65 \<le> (of_char c :: nat) \<and> (of_char c :: nat) \<le> 90"

definition is_ascii_lower :: "char \<Rightarrow> bool" where
  "is_ascii_lower c \<longleftrightarrow> 97 \<le> (of_char c :: nat) \<and> (of_char c :: nat) \<le> 122"

definition is_ascii_alnum :: "char \<Rightarrow> bool" where
  \<comment> \<open>\<open>[A-Za-z0-9]\<close>\<close>
  "is_ascii_alnum c \<longleftrightarrow> is_ascii_upper c \<or> is_ascii_lower c \<or> is_digit c"

definition is_word :: "char \<Rightarrow> bool" where
  \<comment> \<open>\<open>\w\<close>: \<open>str.isalnum\<close> or the underscore\<close>
  "is_word c \<longleftrightarrow>
     is_ascii_alnum c \<or> c = CHR ''_'' \<or>
     c \<in> set [CHR 0xAA, CHR 0xB2, CHR 0xB3, CHR 0xB5, CHR 0xB9, CHR 0xBA, CHR 0xBC,
              CHR 0xBD, CHR 0xBE] \<or>
     (192 \<le> (of_char c :: nat) \<and> (of_char c :: nat) \<noteq> 215 \<and> (of_char c :: nat) \<noteq> 247)"

definition lower_char :: "char \<Rightarrow> char" where
  "lower_char c =
     (let n = (of_char c :: nat)
      in if (65 \<le> n \<and> n \<le> 90) \<or> (192 \<le> n \<and> n \<le> 222 \<and> n \<noteq> 215)
         then char_of (n + 32) else c)"

definition str_lower :: "string \<Rightarrow> string" where
  \<comment> \<open>\<open>s.lower()\<close>\<close>
  "str_lower s = map lower_char s"

definition startswith :: "string \<Rightarrow> string \<Rightarrow> bool" where
  \<comment> \<open>\<open>s.startswith(p)\<close>\<close>
  "startswith s p \<longleftrightarrow> take (length p) s = p"

fun contains :: "string \<Rightarrow> string \<Rightarrow> bool" where
  \<comment> \<open>\<open>p in s\<close>\<close>
  "contains p [] = (p = [])"
| "contains p (c # cs) = (startswith (c # cs) p \<or> contains p cs)"

fun split_after :: "string \<Rightarrow> string \<Rightarrow> string option" where
  \<comment> \<open>\<open>s.split(p, 1)[1]\<close>: what follows the first occurrence of \<open>p\<close>; \<open>None\<close> is the
      IndexError of a text without \<open>p\<close>\<close>
  "split_after p [] = (if p = [] then Some [] else None)"
| "split_after p (c # cs) =
     (if startswith (c # cs) p then Some (drop (length p) (c # cs)) else split_after p cs)"

fun split_before :: "string \<Rightarrow> string \<Rightarrow> string" where
  \<comment> \<open>\<open>s.split(p)[0]\<close>: what precedes the first occurrence of \<open>p\<close>, all of \<open>s\<close> without one\<close>
  "split_before p [] = []"
| "split_before p (c # cs) = (if startswith (c # cs) p then [] else c # split_before p cs)"

definition strip :: "string \<Rightarrow> string" where
  \<comment> \<open>\<open>s.strip()\<close>\<close>
  "strip s = rev (dropWhile is_space (rev (dropWhile is_space s)))"

fun split_from :: "string \<Rightarrow> string \<Rightarrow> string list" where
  "split_from cur [] = (if cur = [] then [] else [cur])"
| "split_from cur (c # cs) =
     (if is_space c then (if cur = [] then split_from [] cs else cur # split_from [] cs)
      else split_from (cur @ [c]) cs)"

definition split_ws :: "string \<Rightarrow> string list" where
  \<comment> \<open>\<open>s.split()\<close>: the maximal runs of non-whitespace\<close>
  "split_ws s = split_from [] s"

fun join :: "string \<Rightarrow> string list \<Rightarrow> string" where
  \<comment> \<open>\<open>sep.join(ws)\<close>\<close>
  "join sep [] = []"
| "join sep [w] = w"
| "join sep (w # v # ws) = w @ sep @ join sep (v # ws)"

section \<open>Regular expressions\<close>

text \<open>
  \<open>re.sub(p, "", s)\<close> for a pattern that matches no empty string: the text is scanned
  from the left; where the pattern matches, the match is left out and the scan goes on
  behind it; elsewhere the character is kept. The matcher receives the character before
  the position (for \<open>\b\<close>) and the rest of the text, and returns the length of the match.
\<close>

fun re_delete :: "(char option \<Rightarrow> string \<Rightarrow> nat option) \<Rightarrow> char option \<Rightarrow> nat \<Rightarrow> string \<Rightarrow> string" where
  "re_delete m prev k [] = []"
| "re_delete m prev (Suc k) (c # cs) = re_delete m (Some c) k cs"
| "re_delete m prev 0 (c # cs) =
     (case m prev (c # cs) of
        Some (Suc k) \<Rightarrow> re_delete m (Some c) k cs
      | _ \<Rightarrow> c # re_delete m (Some c) 0 cs)"

definition nonspace_run :: "string \<Rightarrow> nat" where
  \<comment> \<open>the length of the greedy \<open>\S*\<close> at the head of the text\<close>
  "nonspace_run s = length (takeWhile (\<lambda>c. \<not> is_space c) s)"

definition match_tag :: "char option \<Rightarrow> string \<Rightarrow> nat option" where
  \<comment> \<open>\<open><[^>]+>\<close>\<close>
  "match_tag prev s =
     (case s of
        [] \<Rightarrow> None
      | c # cs \<Rightarrow>
          (let body = takeWhile (\<lambda>d. d \<noteq> CHR ''>'') cs
           in if c = CHR ''<'' \<and> body \<noteq> [] \<and> length body < length cs
              then Some (length body + 2) else None))"

definition match_url :: "char option \<Rightarrow> string \<Rightarrow> nat option" where
  \<comment> \<open>\<open>https?://\S+\<close>\<close>
  "match_url prev s =
     (if startswith s ''https://'' \<and> 0 < nonspace_run (drop 8 s)
      then Some (8 + nonspace_run (drop 8 s))
      else if startswith s ''http://'' \<and> 0 < nonspace_run (drop 7 s)
      then Some (7 + nonspace_run (drop 7 s))
      else None)"

definition match_www :: "char option \<Rightarrow> string \<Rightarrow> nat option" where
  \<comment> \<open>\<open>www\.\S+\<close>\<close>
  "match_www prev s =
     (if startswith s ''www.'' \<and> 0 < nonspace_run (drop 4 s)
      then Some (4 + nonspace_run (drop 4 s)) else None)"

fun collapse_from :: "bool \<Rightarrow> string \<Rightarrow> string" where
  "collapse_from b [] = []"
| "collapse_from b (c # cs) =
     (if is_space c then (if b then collapse_from True cs else CHR '' '' # collapse_from True cs)
      else c # collapse_from False cs)"

definition collapse_ws :: "string \<Rightarrow> string" where
  \<comment> \<open>\<open>re.sub(r"\s+", " ", s)\<close>: every maximal run of whitespace becomes one space\<close>
  "collapse_ws s = collapse_from False s"

definition special_to_space :: "string \<Rightarrow> string" where
  \<comment> \<open>\<open>re.sub(r"[^A-Za-z0-9\s]", " ", s)\<close>\<close>
  "special_to_space s = map (\<lambda>c. if is_ascii_alnum c \<or> is_space c then c else CHR '' '') s"

section \<open>Small helpers\<close>

definition clean_text :: "string \<Rightarrow> string" where
  "clean_text s =
     (if s = [] then []
      else
        let s1 = re_delete match_tag None 0 s;
            s2 = re_delete match_url None 0 s1;
            s3 = re_delete match_www None 0 s2;
            s4 = special_to_space s3;
            s5 = strip (collapse_ws s4)
        in str_lower s5)"

definition junk_words :: "string list" where
  "junk_words = [''here'', ''click'', ''login'', ''home'', ''ok'']"

definition clean_top5_item :: "string \<Rightarrow> string" where
  "clean_top5_item s =
     (let ws = filter (\<lambda>w. w \<notin> set junk_words \<and> 2 < length w) (split_ws s)
      in strip (join '' '' ws))"

fun counter_add :: "'a \<Rightarrow> ('a \<times> nat) list \<Rightarrow> ('a \<times> nat) list" where
  "counter_add x [] = [(x, 1)]"
| "counter_add x ((y, n) # ys) = (if x = y then (y, Suc n) # ys else (y, n) # counter_add x ys)"

definition Counter :: "'a list \<Rightarrow> ('a \<times> nat) list" where
  \<comment> \<open>\<open>collections.Counter(items)\<close>: the keys in the order of their first occurrence\<close>
  "Counter items = foldl (\<lambda>c x. counter_add x c) [] items"

definition most_common :: "nat \<Rightarrow> ('a \<times> nat) list \<Rightarrow> ('a \<times> nat) list" where
  \<comment> \<open>\<open>most_common(n)\<close>: a stable sort by decreasing count, cut after \<open>n\<close> entries\<close>
  "most_common n c = take n (sort_key (\<lambda>(l, k). - int k) c)"

definition no_data :: "(string \<times> nat) list" where
  "no_data = [(''No data found'', 0)]"

definition top5_from_list :: "string list \<Rightarrow> (string \<times> nat) list" where
  "top5_from_list items =
     (let cleaned_items = map (\<lambda>x. clean_top5_item (clean_text x)) (filter (\<lambda>x. clean_text x \<noteq> []) items);
          cleaned_items = filter (\<lambda>x. x \<noteq> []) cleaned_items
      in if cleaned_items = [] then no_data else most_common 5 (Counter cleaned_items))"

section \<open>The parsed document\<close>

text \<open>
  The HTML parser is a library. What the analyzers read from it is modelled as data: the
  document is the list of its \<open>div\<close> elements in the order of \<open>find_all\<close>, and each
  element carries its text nodes, its first link and its first \<open>span\<close>.
  \<open>strptime\<close> is a library function too; the analyzers take it as the parameter
  \<open>parse_datetime\<close>. A \<open>datetime\<close> is a point of the time line, in microseconds.
\<close>

type_synonym datetime = int

record anchor =
  a_texts :: "string list"
  a_href :: "string option"

record block =
  texts :: "string list"
  first_a :: "anchor option"
  first_span :: "string list option"

definition get_text :: "string \<Rightarrow> string list \<Rightarrow> string" where
  \<comment> \<open>\<open>get_text(separator=sep, strip=True)\<close>: the stripped, non-empty text nodes, joined\<close>
  "get_text sep ts = join sep (filter (\<lambda>t. t \<noteq> []) (map strip ts))"

definition span_time :: "(string \<Rightarrow> datetime option) \<Rightarrow> block \<Rightarrow> datetime list" where
  \<comment> \<open>the timestamp extraction that closes every loop body\<close>
  "span_time parse_datetime b =
     (case first_span b of
        None \<Rightarrow> []
      | Some sp \<Rightarrow> (case parse_datetime (get_text [] sp) of None \<Rightarrow> [] | Some dt \<Rightarrow> [dt]))"

type_synonym categories = "(string \<times> nat) list"

definition incr :: "string \<Rightarrow> categories \<Rightarrow> categories" where
  \<comment> \<open>\<open>categories[k] += 1\<close>; every key used is present from the initialisation\<close>
  "incr k cs = map (\<lambda>(k', n). if k' = k then (k', n + 1) else (k', n)) cs"

definition assign :: "string \<Rightarrow> nat \<Rightarrow> categories \<Rightarrow> categories" where
  \<comment> \<open>\<open>categories[k] = v\<close>\<close>
  "assign k v cs =
     (if k \<in> fst ` set cs then map (\<lambda>(k', n). if k' = k then (k', v) else (k', n)) cs
      else cs @ [(k, v)])"

definition count_of :: "categories \<Rightarrow> string \<Rightarrow> nat" where
  "count_of cs k = (case map_of cs k of None \<Rightarrow> 0 | Some n \<Rightarrow> n)"

record scan =
  categories :: categories
  items :: "string list"
  activity_times :: "datetime list"

section \<open>Generic analyzer\<close>

definition generic_category :: "string \<Rightarrow> string" where
  "generic_category low =
     (if contains ''searched'' low \<or> contains ''search'' low then ''Search''
      else if contains ''youtube'' low \<or> contains ''watched'' low then ''YouTube''
      else if contains ''maps'' low \<or> contains ''location'' low \<or> contains ''place'' low then ''Maps''
      else if contains ''shopping'' low \<or> contains ''product'' low then ''Shopping''
      else if contains ''discover'' low then ''Discover''
      else ''Other'')"

definition generic_init :: scan where
  "generic_init =
     \<lparr>categories = [(''Search'', 0), (''YouTube'', 0), (''Maps'', 0), (''Shopping'', 0),
                     (''Discover'', 0), (''Other'', 0)],
      items = [], activity_times = []\<rparr>"

definition generic_step :: "string \<Rightarrow> (string \<Rightarrow> datetime option) \<Rightarrow> scan \<Rightarrow> block \<Rightarrow> scan" where
  \<comment> \<open>\<open>sep\<close> is the separator literal of \<open>text.split\<close>: a space, U+2022 and a space. U+2022
      has no 8-bit character, so the literal is a parameter.\<close>
  "generic_step sep parse_datetime st dv =
     (let text = get_text '' '' (texts dv);
          low = str_lower text;
          cats = incr (generic_category low) (categories st);
          its = (case first_a dv of
                   Some a_tag \<Rightarrow> items st @ [get_text [] (a_texts a_tag)]
                 | None \<Rightarrow>
                     (let chunk = clean_text (split_before sep text)
                      in if chunk \<noteq> [] then items st @ [chunk] else items st))
      in \<lparr>categories = cats, items = its,
          activity_times = activity_times st @ span_time parse_datetime dv\<rparr>)"

definition generic_scan :: "string \<Rightarrow> (string \<Rightarrow> datetime option) \<Rightarrow> block list \<Rightarrow> scan" where
  \<comment> \<open>the loop over the blocks\<close>
  "generic_scan sep parse_datetime soup = foldl (generic_step sep parse_datetime) generic_init soup"

definition analyze_generic_file ::
  "string \<Rightarrow> (string \<Rightarrow> datetime option) \<Rightarrow> block list \<Rightarrow> categories \<times> (string \<times> nat) list \<times> datetime list" where
  "analyze_generic_file sep parse_datetime soup =
     (let st = generic_scan sep parse_datetime soup
      in (categories st, top5_from_list (items st), activity_times st))"

section \<open>Search analyzer\<close>

definition space_run :: "string \<Rightarrow> nat" where
  "space_run s = length (takeWhile is_space s)"

definition strip_connector :: "string \<Rightarrow> string" where
  \<comment> \<open>\<open>re.sub(r"^(for|on|about)\s+", "", s, flags=re.I)\<close>\<close>
  "strip_connector s =
     (let low = str_lower s
      in if startswith low ''for'' \<and> 0 < space_run (drop 3 s) then dropWhile is_space (drop 3 s)
         else if startswith low ''on'' \<and> 0 < space_run (drop 2 s) then dropWhile is_space (drop 2 s)
         else if startswith low ''about'' \<and> 0 < space_run (drop 5 s) then dropWhile is_space (drop 5 s)
         else s)"

definition at_boundary :: "char option \<Rightarrow> bool" where
  \<comment> \<open>\<open>\b\<close> next to a word character: the neighbour is missing or no word character\<close>
  "at_boundary n = (case n of None \<Rightarrow> True | Some c \<Rightarrow> \<not> is_word c)"

definition next_char :: "string \<Rightarrow> char option" where
  "next_char s = (case s of [] \<Rightarrow> None | c # _ \<Rightarrow> Some c)"

fun clock_len :: "string \<Rightarrow> nat option" where
  \<comment> \<open>\<open>\d{1,2}:\d{2}\b\<close> at the head of the text\<close>
  "clock_len (h1 # h2 # c # m1 # m2 # r) =
     (if is_digit h1 \<and> is_digit h2 \<and> c = CHR '':'' \<and> is_digit m1 \<and> is_digit m2 \<and> at_boundary (next_char r)
      then Some 5
      else if is_digit h1 \<and> h2 = CHR '':'' \<and> is_digit c \<and> is_digit m1 \<and> at_boundary (Some m2)
      then Some 4 else None)"
| "clock_len [h1, c, m1, m2] =
     (if is_digit h1 \<and> c = CHR '':'' \<and> is_digit m1 \<and> is_digit m2 then Some 4 else None)"
| "clock_len _ = None"

definition to_line_end :: "string \<Rightarrow> nat option" where
  \<comment> \<open>\<open>.*$\<close>: the rest of the line, where the line is the last one (a final newline apart)\<close>
  "to_line_end s =
     (let line = takeWhile (\<lambda>c. c \<noteq> CHR 0x0A) s; rest = drop (length line) s
      in if rest = [] \<or> rest = [CHR 0x0A] then Some (length line) else None)"

definition match_time :: "char option \<Rightarrow> string \<Rightarrow> nat option" where
  \<comment> \<open>\<open>\bat \d{1,2}:\d{2}\b.*$\<close>\<close>
  "match_time prev s =
     (if at_boundary prev \<and> startswith s ''at ''
      then (case clock_len (drop 3 s) of
              None \<Rightarrow> None
            | Some k \<Rightarrow> (case to_line_end (drop (3 + k) s) of
                          None \<Rightarrow> None
                        | Some e \<Rightarrow> Some (3 + k + e)))
      else None)"

definition search_phrases :: "string list" where
  "search_phrases = [''Searched for'', ''You searched for'', ''Searched on Google for'']"

definition search_term :: "string \<Rightarrow> string" where
  \<comment> \<open>the term taken from the text behind the phrase\<close>
  "search_term rest =
     (let term = clean_text rest;
          term = strip_connector term
      in re_delete match_time None 0 term)"

fun search_phrase_loop :: "string list \<Rightarrow> string \<Rightarrow> scan \<Rightarrow> scan \<times> bool" where
  \<comment> \<open>the loop over the phrases with its \<open>break\<close>; \<open>phrase in text\<close> and the \<open>split\<close> behind
      it are one \<open>case\<close>, and the second component is \<open>found\<close>\<close>
  "search_phrase_loop [] text st = (st, False)"
| "search_phrase_loop (phrase # ps) text st =
     (case split_after phrase text of
        None \<Rightarrow> search_phrase_loop ps text st
      | Some rest \<Rightarrow>
          (let term = search_term rest
           in (st\<lparr>categories := incr ''Search'' (categories st),
                  items := (if term \<noteq> [] then items st @ [term] else items st)\<rparr>, True)))"

definition search_init :: scan where
  "search_init = \<lparr>categories = [(''Search'', 0), (''Other'', 0)], items = [], activity_times = []\<rparr>"

definition search_step :: "(string \<Rightarrow> datetime option) \<Rightarrow> scan \<Rightarrow> block \<Rightarrow> scan" where
  "search_step parse_datetime st dv =
     (let text = get_text '' '' (texts dv);
          (st1, found) = search_phrase_loop search_phrases text st;
          st2 = (if \<not> found then st1\<lparr>categories := incr ''Other'' (categories st1)\<rparr> else st1)
      in st2\<lparr>activity_times := activity_times st2 @ span_time parse_datetime dv\<rparr>)"

definition search_scan :: "(string \<Rightarrow> datetime option) \<Rightarrow> block list \<Rightarrow> scan" where
  \<comment> \<open>the loop over the blocks\<close>
  "search_scan parse_datetime soup = foldl (search_step parse_datetime) search_init soup"

definition analyze_search_file ::
  "(string \<Rightarrow> datetime option) \<Rightarrow> block list \<Rightarrow> categories \<times> (string \<times> nat) list \<times> datetime list" where
  "analyze_search_file parse_datetime soup =
     (let st = search_scan parse_datetime soup
      in (categories st, top5_from_list (items st), activity_times st))"

section \<open>YouTube analyzer\<close>

record yt_scan =
  video_titles :: "string list"
  search_queries :: "string list"
  yt_times :: "datetime list"

definition youtube_phrases :: "string list" where
  "youtube_phrases = [''Searched for'', ''Search for'', ''Searched on YouTube for'']"

definition youtube_query :: "string \<Rightarrow> string \<Rightarrow> string list" where
  \<comment> \<open>one turn of the loop over the phrases: what the phrase appends to \<open>search_queries\<close>\<close>
  "youtube_query text phrase =
     (case split_after phrase text of
        None \<Rightarrow> []
      | Some rest \<Rightarrow> (let q = strip_connector (clean_text rest) in if q \<noteq> [] then [q] else []))"

definition youtube_queries :: "string \<Rightarrow> string list" where
  \<comment> \<open>the whole loop over the phrases; it has no \<open>break\<close>\<close>
  "youtube_queries text = concat (map (youtube_query text) youtube_phrases)"

definition youtube_title :: "block \<Rightarrow> string list" where
  \<comment> \<open>what the first link of the block appends to \<open>video_titles\<close>\<close>
  "youtube_title dv =
     (case first_a dv of
        None \<Rightarrow> []
      | Some a_tag \<Rightarrow>
          (let href = (case a_href a_tag of None \<Rightarrow> [] | Some h \<Rightarrow> h)
           in if contains ''youtube.com'' href \<or> contains ''youtu.be'' href
              then (let title = clean_text (get_text [] (a_texts a_tag))
                    in if title \<noteq> [] \<and>
                          \<not> startswith (str_lower title) ''watched a video that has been removed''
                       then [title] else [])
              else []))"

definition youtube_step :: "(string \<Rightarrow> datetime option) \<Rightarrow> yt_scan \<Rightarrow> block \<Rightarrow> yt_scan" where
  "youtube_step parse_datetime st dv =
     (let text = get_text '' '' (texts dv)
      in \<lparr>video_titles = video_titles st @ youtube_title dv,
          search_queries = search_queries st @ youtube_queries text,
          yt_times = yt_times st @ span_time parse_datetime dv\<rparr>)"

definition youtube_init :: yt_scan where
  "youtube_init = \<lparr>video_titles = [], search_queries = [], yt_times = []\<rparr>"

definition youtube_categories :: categories where
  "youtube_categories =
     [(''YouTube'', 0), (''Search'', 0), (''Maps'', 0), (''Shopping'', 0), (''Discover'', 0),
      (''Other'', 0)]"

definition youtube_scan :: "(string \<Rightarrow> datetime option) \<Rightarrow> block list \<Rightarrow> yt_scan" where
  \<comment> \<open>the loop over the blocks\<close>
  "youtube_scan parse_datetime soup = foldl (youtube_step parse_datetime) youtube_init soup"

definition analyze_youtube_file ::
  "(string \<Rightarrow> datetime option) \<Rightarrow> block list \<Rightarrow> categories \<times> (string \<times> nat) list \<times> datetime list" where
  "analyze_youtube_file parse_datetime soup =
     (let st = youtube_scan parse_datetime soup;
          combined = search_queries st @ video_titles st;
          cats = assign ''YouTube'' (length (video_titles st)) youtube_categories;
          cats = assign ''Search'' (length (search_queries st)) cats
      in (cats, top5_from_list combined, yt_times st))"

section \<open>Discover analyzer\<close>

definition is_linebreak :: "char \<Rightarrow> bool" where
  \<comment> \<open>the line boundaries of \<open>str.splitlines\<close>\<close>
  "is_linebreak c \<longleftrightarrow>
     c \<in> set [CHR 0x0A, CHR 0x0B, CHR 0x0C, CHR 0x0D, CHR 0x1C, CHR 0x1D, CHR 0x1E, CHR 0x85]"

fun splitlines_from :: "string \<Rightarrow> string \<Rightarrow> string list" where
  "splitlines_from cur [] = (if cur = [] then [] else [cur])"
| "splitlines_from cur [c] = (if is_linebreak c then [cur] else [cur @ [c]])"
| "splitlines_from cur (c # d # cs) =
     (if c = CHR 0x0D \<and> d = CHR 0x0A then cur # splitlines_from [] cs
      else if is_linebreak c then cur # splitlines_from [] (d # cs)
      else splitlines_from (cur @ [c]) (d # cs))"

definition splitlines :: "string \<Rightarrow> string list" where
  "splitlines s = splitlines_from [] s"

definition at_end :: "string \<Rightarrow> bool" where
  \<comment> \<open>\<open>$\<close>: the end of the text, or the place before its final newline\<close>
  "at_end s \<longleftrightarrow> s = [] \<or> s = [CHR 0x0A]"

definition match_viewed :: "char option \<Rightarrow> string \<Rightarrow> nat option" where
  \<comment> \<open>\<open>viewed$\<close>, ignoring case\<close>
  "match_viewed prev s =
     (if startswith (str_lower s) ''viewed'' \<and> at_end (drop 6 s) then Some 6 else None)"

definition match_dash_viewed :: "char option \<Rightarrow> string \<Rightarrow> nat option" where
  \<comment> \<open>\<open>\s*-\s*viewed$\<close>, ignoring case\<close>
  "match_dash_viewed prev s =
     (let a = dropWhile is_space s
      in case a of
           [] \<Rightarrow> None
         | c # b \<Rightarrow>
             (let v = dropWhile is_space b
              in if c = CHR ''-'' \<and> startswith (str_lower v) ''viewed'' \<and> at_end (drop 6 v)
                 then Some (length s - length (drop 6 v)) else None))"

definition match_card :: "char option \<Rightarrow> string \<Rightarrow> bool" where
  \<comment> \<open>\<open>\bcard(s)?\b|\bin your feed\b\<close>, ignoring case, at one position\<close>
  "match_card prev s =
     (let low = str_lower s
      in at_boundary prev \<and>
         ((startswith low ''cards'' \<and> at_boundary (next_char (drop 5 s))) \<or>
          (startswith low ''card'' \<and> at_boundary (next_char (drop 4 s))) \<or>
          (startswith low ''in your feed'' \<and> at_boundary (next_char (drop 12 s)))))"

fun re_search :: "(char option \<Rightarrow> string \<Rightarrow> bool) \<Rightarrow> char option \<Rightarrow> string \<Rightarrow> bool" where
  \<comment> \<open>\<open>re.search\<close> for a pattern that matches no empty string\<close>
  "re_search m prev [] = False"
| "re_search m prev (c # cs) = (m prev (c # cs) \<or> re_search m (Some c) cs)"

fun start_index :: "nat \<Rightarrow> string list \<Rightarrow> nat" where
  \<comment> \<open>the loop looking for the \<open>details\<close> line, \<open>i\<close> being the index of the head of the list\<close>
  "start_index i [] = 1"
| "start_index i (row # rows) =
     (if startswith (str_lower row) ''details'' then i + 1 else start_index (i + 1) rows)"

fun discover_lines :: "string list \<Rightarrow> string list" where
  \<comment> \<open>the loop over the lines behind the start index; what it appends to \<open>items\<close>\<close>
  "discover_lines [] = []"
| "discover_lines (row # rows) =
     (if startswith (str_lower row) ''why is this here'' then []
      else
        (let clean = strip (re_delete match_dash_viewed None 0 row);
             clean = strip (re_delete match_viewed None 0 clean)
         in if re_search match_card None clean then discover_lines rows
            else (let clean = clean_text clean
                  in if clean \<noteq> [] then clean # discover_lines rows else discover_lines rows)))"

record dc_scan =
  dc_items :: "string list"
  dc_times :: "datetime list"

definition discover_step :: "(string \<Rightarrow> datetime option) \<Rightarrow> dc_scan \<Rightarrow> block \<Rightarrow> dc_scan" where
  "discover_step parse_datetime st dv =
     (let text = get_text [CHR 0x0A] (texts dv)
      in if text = [] then st
         else
           (let lines = filter (\<lambda>row. row \<noteq> []) (map strip (splitlines text))
            in if lines = [] then st
               else
                 (let first_line = str_lower (hd lines);
                      block_text_lower = str_lower (join [CHR 0x0A] lines);
                      is_discover = (contains ''discover'' first_line \<or>
                                     (contains ''products:'' block_text_lower \<and>
                                      contains ''discover'' block_text_lower))
                  in if \<not> is_discover then st
                     else \<lparr>dc_items = dc_items st @ discover_lines (drop (start_index 0 lines) lines),
                           dc_times = dc_times st @ span_time parse_datetime dv\<rparr>)))"

definition discover_init :: dc_scan where
  "discover_init = \<lparr>dc_items = [], dc_times = []\<rparr>"

definition discover_scan :: "(string \<Rightarrow> datetime option) \<Rightarrow> block list \<Rightarrow> dc_scan" where
  \<comment> \<open>the loop over the blocks\<close>
  "discover_scan parse_datetime soup = foldl (discover_step parse_datetime) discover_init soup"

definition analyze_discover_file ::
  "(string \<Rightarrow> datetime option) \<Rightarrow> block list \<Rightarrow> categories \<times> (string \<times> nat) list \<times> datetime list" where
  "analyze_discover_file parse_datetime soup =
     (let st = discover_scan parse_datetime soup;
          counter = Counter (dc_items st);
          top5_data = (if dc_items st \<noteq> [] then most_common 5 counter else no_data)
      in (assign ''Discover'' (sum_list (map snd counter)) [(''Discover'', 0)], top5_data, dc_times st))"

section \<open>Risk and suggestions\<close>

text \<open>
  The score is a Python float. A float is modelled by its value: a real number, one of
  the two infinities, or no number. The rounding operations of the machine are not
  defined here; they are the parameter \<open>fp\<close> of the functions below: the sum, the
  product and the quotient of two floats, \<open>math.log\<close> of an integer, and \<open>math.exp\<close>,
  which raises OverflowError or returns a float. Every property proved for all \<open>fp\<close>
  holds for the arithmetic of the machine. Comparisons and \<open>int\<close> involve no rounding and
  are defined. \<open>datetime.now()\<close> is the parameter \<open>now\<close>.

  The texts of the assessment are lists of code points (\<open>ustr\<close> gives the code points
  of a literal), since one of them holds U+25B6.
\<close>

datatype py_error = OverflowError | ValueError

datatype pyfloat = Finite real | PosInf | NegInf | NaN

record float_ops =
  fadd :: "pyfloat \<Rightarrow> pyfloat \<Rightarrow> pyfloat"
  fmul :: "pyfloat \<Rightarrow> pyfloat \<Rightarrow> pyfloat"
  fdiv :: "pyfloat \<Rightarrow> pyfloat \<Rightarrow> pyfloat"
  flog :: "nat \<Rightarrow> pyfloat"
  fexp :: "pyfloat \<Rightarrow> py_error + pyfloat"

fun float_lt :: "pyfloat \<Rightarrow> pyfloat \<Rightarrow> bool" where
  \<comment> \<open>\<open>a < b\<close>\<close>
  "float_lt (Finite a) (Finite b) = (a < b)"
| "float_lt (Finite a) PosInf = True"
| "float_lt NegInf (Finite b) = True"
| "float_lt NegInf PosInf = True"
| "float_lt _ _ = False"

definition float_le :: "pyfloat \<Rightarrow> pyfloat \<Rightarrow> bool" where
  \<comment> \<open>\<open>a <= b\<close>\<close>
  "float_le a b \<longleftrightarrow> float_lt a b \<or> (a = b \<and> a \<noteq> NaN)"

definition py_min :: "pyfloat \<Rightarrow> pyfloat \<Rightarrow> pyfloat" where
  \<comment> \<open>\<open>min(a, x)\<close>: the second argument where it is the smaller one, else the first\<close>
  "py_min a x = (if float_lt x a then x else a)"

definition py_max :: "pyfloat \<Rightarrow> pyfloat \<Rightarrow> pyfloat" where
  \<comment> \<open>\<open>max(a, y)\<close>: the second argument where it is the greater one, else the first\<close>
  "py_max a y = (if float_lt a y then y else a)"

definition trunc :: "real \<Rightarrow> int" where
  \<comment> \<open>truncation toward zero\<close>
  "trunc x = (if 0 \<le> x then \<lfloor>x\<rfloor> else \<lceil>x\<rceil>)"

fun float_int :: "pyfloat \<Rightarrow> py_error + int" where
  \<comment> \<open>\<open>int(x)\<close>\<close>
  "float_int (Finite x) = Inr (trunc x)"
| "float_int PosInf = Inl OverflowError"
| "float_int NegInf = Inl OverflowError"
| "float_int NaN = Inl ValueError"

definition of_py_int :: "int \<Rightarrow> pyfloat" where
  \<comment> \<open>an integer of the code where a float is expected; the integers met are small\<close>
  "of_py_int n = Finite (of_int n)"

definition weights :: "(string \<times> int) list" where
  "weights = [(''Search'', 1), (''YouTube'', 2), (''Maps'', 3), (''Shopping'', 2),
              (''Discover'', 1), (''Other'', 1)]"

definition weight_of :: "string \<Rightarrow> int" where
  \<comment> \<open>\<open>weights.get(cat, 1)\<close>\<close>
  "weight_of cat = (case map_of weights cat of None \<Rightarrow> 1 | Some w \<Rightarrow> w)"

definition base_risk :: "float_ops \<Rightarrow> categories \<Rightarrow> pyfloat" where
  \<comment> \<open>\<open>sum\<close> starts from the integer 0 and adds the terms from the left\<close>
  "base_risk fp cats =
     foldl (fadd fp) (of_py_int 0)
       (map (\<lambda>(cat, count). fmul fp (of_py_int (weight_of cat)) (flog fp (1 + count))) cats)"

definition days_ago :: "datetime \<Rightarrow> datetime \<Rightarrow> int" where
  \<comment> \<open>\<open>(now - act_time).days\<close>: whole days, rounded down\<close>
  "days_ago now act_time = (now - act_time) div 86400000000"

definition decay :: "float_ops \<Rightarrow> datetime \<Rightarrow> datetime \<Rightarrow> py_error + pyfloat" where
  \<comment> \<open>\<open>math.exp(-days_ago / 7)\<close>\<close>
  "decay fp now act_time = fexp fp (fdiv fp (of_py_int (- days_ago now act_time)) (of_py_int 7))"

fun recent_loop :: "float_ops \<Rightarrow> datetime \<Rightarrow> pyfloat \<Rightarrow> datetime list \<Rightarrow> py_error + pyfloat" where
  "recent_loop fp now recent_risk [] = Inr recent_risk"
| "recent_loop fp now recent_risk (act_time # ts) =
     (case decay fp now act_time of
        Inl e \<Rightarrow> Inl e
      | Inr v \<Rightarrow> recent_loop fp now (fadd fp recent_risk v) ts)"

definition risk_percent_of :: "float_ops \<Rightarrow> pyfloat \<Rightarrow> py_error + int" where
  \<comment> \<open>\<open>int(max(0, min(100, (total_risk / 15.0) * 100)))\<close>\<close>
  "risk_percent_of fp total_risk =
     float_int (py_max (of_py_int 0) (py_min (of_py_int 100)
       (fmul fp (fdiv fp total_risk (Finite 15)) (of_py_int 100))))"

type_synonym ustring = "nat list"

definition ustr :: "string \<Rightarrow> ustring" where
  "ustr s = map of_char s"

record risk =
  risk_level :: ustring
  risk_color :: ustring
  risk_message :: ustring
  risk_suggestions :: "ustring list"
  risk_percent :: int

definition tier_of_total :: "pyfloat \<Rightarrow> int \<Rightarrow> risk" where
  \<comment> \<open>the three \<open>return\<close> statements of \<open>calculate_risk\<close>\<close>
  "tier_of_total total_risk percent =
     (if float_le total_risk (of_py_int 3) then
        \<lparr>risk_level = ustr ''Low'', risk_color = ustr ''green'',
         risk_message = ustr ''Low tracking detected.'',
         risk_suggestions =
           [ustr ''Keep privacy settings reviewed monthly.'',
            ustr ''Use incognito for sensitive searches.'',
            ustr ''Periodically clear browsing history.''],
         risk_percent = percent\<rparr>
      else if float_le total_risk (of_py_int 10) then
        \<lparr>risk_level = ustr ''Medium'', risk_color = ustr ''#ffcc00'',
         risk_message = ustr ''Moderate tracking detected.'',
         risk_suggestions =
           [ustr ''Turn off Location History in Google settings.'',
            ustr ''Review connected apps and revoke unused permissions.'',
            ustr ''Use a privacy-focused browser (Brave/Firefox) for routine browsing.''],
         risk_percent = percent\<rparr>
      else
        \<lparr>risk_level = ustr ''High'', risk_color = ustr ''red'',
         risk_message = ustr ''Heavy tracking detected recently.'',
         risk_suggestions =
           [ustr ''Pause Web & App Activity (Google Account '' @ [0x25B6] @
              ustr '' Data & privacy).'',
            ustr ''Delete recent activity from My Activity.'',
            ustr ''Consider a VPN for browsing and disable ad personalization.''],
         risk_percent = percent\<rparr>)"

definition risk_of_total :: "float_ops \<Rightarrow> pyfloat \<Rightarrow> py_error + risk" where
  \<comment> \<open>the tail of \<open>calculate_risk\<close>, from \<open>total_risk\<close> on\<close>
  "risk_of_total fp total_risk =
     (case risk_percent_of fp total_risk of
        Inl e \<Rightarrow> Inl e
      | Inr percent \<Rightarrow> Inr (tier_of_total total_risk percent))"

definition total_risk_of :: "float_ops \<Rightarrow> datetime \<Rightarrow> categories \<Rightarrow> datetime list \<Rightarrow> py_error + pyfloat" where
  "total_risk_of fp now cats recent_activities =
     (let base = base_risk fp cats
      in case (if recent_activities \<noteq> [] then recent_loop fp now (of_py_int 0) recent_activities
               else Inr (of_py_int 0)) of
           Inl e \<Rightarrow> Inl e
         | Inr recent_risk \<Rightarrow> Inr (fadd fp base recent_risk))"

definition calculate_risk :: "float_ops \<Rightarrow> datetime \<Rightarrow> categories \<Rightarrow> datetime list \<Rightarrow> py_error + risk" where
  "calculate_risk fp now cats recent_activities =
     (case total_risk_of fp now cats recent_activities of
        Inl e \<Rightarrow> Inl e
      | Inr total_risk \<Rightarrow> risk_of_total fp total_risk)"

section \<open>The specification's formulas and sample inputs\<close>

definition no_activity :: categories where
  "no_activity =
     [(''Search'', 0), (''YouTube'', 0), (''Maps'', 0), (''Shopping'', 0), (''Discover'', 0),
      (''Other'', 0)]"

definition maps_only :: categories where
  "maps_only =
     [(''Search'', 0), (''YouTube'', 0), (''Maps'', 10000), (''Shopping'', 0), (''Discover'', 0),
      (''Other'', 0)]"

definition clean_char :: "char \<Rightarrow> bool" where
  \<comment> \<open>the characters of a normalised text\<close>
  "clean_char c \<longleftrightarrow> is_ascii_lower c \<or> is_digit c \<or> c = CHR '' ''"

fun single_spaced :: "string \<Rightarrow> bool" where
  \<comment> \<open>no two spaces in a row\<close>
  "single_spaced (c # d # cs) = (\<not> (c = CHR '' '' \<and> d = CHR '' '') \<and> single_spaced (d # cs))"
| "single_spaced _ = True"

definition pre_lower :: "string \<Rightarrow> string" where
  \<comment> \<open>the steps of \<open>clean_text\<close> between the removal of links and \<open>lower\<close>\<close>
  "pre_lower s = strip (collapse_ws (special_to_space s))"

definition sample_markup :: string where
  "sample_markup = ''<b>Hello</b>  World! see https://x.y/z?q=1 and www.foo.com now <> ok''"

definition normal :: "string \<Rightarrow> bool" where
  \<comment> \<open>the form of every result of \<open>clean_text\<close>\<close>
  "normal t \<longleftrightarrow>
     (\<forall>c\<in>set t. clean_char c) \<and> single_spaced t \<and>
     (t \<noteq> [] \<longrightarrow> hd t \<noteq> CHR '' '' \<and> last t \<noteq> CHR '' '')"

definition no_time :: "string \<Rightarrow> datetime option" where
  \<comment> \<open>a \<open>parse_datetime\<close> that recognises no text\<close>
  "no_time text = None"

definition text_block :: "string \<Rightarrow> block" where
  \<comment> \<open>a block with one text node, no link and no \<open>span\<close>\<close>
  "text_block t = \<lparr>texts = [t], first_a = None, first_span = None\<rparr>"

definition lowercase_block :: block where
  "lowercase_block = text_block ''searched for cats''"

definition empty_term_block :: block where
  "empty_term_block = text_block ''Searched for ...''"

definition timed_search_block :: block where
  "timed_search_block = text_block ''Searched for cats and dogs at 10:30''"

definition double_phrase_block :: block where
  "double_phrase_block = text_block ''Searched for how to Search for files''"

definition generic_keys :: "string list" where
  "generic_keys = [''Search'', ''YouTube'', ''Maps'', ''Shopping'', ''Discover'', ''Other'']"

definition plain_block :: block where
  "plain_block = text_block ''hello''"

definition watch_search_block :: block where
  "watch_search_block =
     \<lparr>texts = [''Searched for cats'', ''Funny Cats''],
      first_a = Some \<lparr>a_texts = [''Funny Cats''], a_href = Some ''https://www.youtube.com/watch?v=1''\<rparr>,
      first_span = None\<rparr>"

definition bare_discover_block :: block where
  "bare_discover_block = text_block ''Discover''"

definition maps_block :: block where
  "maps_block = text_block ''Visited Maps''"

definition spec_cleaned :: "string list \<Rightarrow> string list" where
  \<comment> \<open>the specification's list: every item normalised and noise-filtered, the empty results dropped\<close>
  "spec_cleaned its = filter (\<lambda>x. x \<noteq> []) (map (\<lambda>x. clean_top5_item (clean_text x)) its)"

definition top5_unfiltered :: "string list \<Rightarrow> (string \<times> nat) list" where
  \<comment> \<open>the aggregation path without the noise-word filter: normalise, drop the empty
      results, count, take the five most frequent; the sentinel for an empty list\<close>
  "top5_unfiltered its =
     (let cleaned = filter (\<lambda>x. x \<noteq> []) (map clean_text its)
      in if cleaned = [] then no_data else most_common 5 (Counter cleaned))"

definition noise_feed_block :: block where
  "noise_feed_block = \<lparr>texts = [''Discover'', ''click here''], first_a = None, first_span = None\<rparr>"

definition news_feed_block :: block where
  "news_feed_block =
     \<lparr>texts = [''Discover'', ''Big news!'', ''Other story'', ''Big news''], first_a = None,
      first_span = None\<rparr>"

definition far_future :: datetime where
  \<comment> \<open>a time 70000 days behind the instant 0\<close>
  "far_future = 70000 * 86400000000"

definition spec_clamp :: "pyfloat \<Rightarrow> pyfloat \<Rightarrow> pyfloat \<Rightarrow> pyfloat" where
  \<comment> \<open>the specification's \<open>clamp(x, lo, hi)\<close>\<close>
  "spec_clamp x lo hi = py_max lo (py_min hi x)"

definition spec_percent :: "float_ops \<Rightarrow> pyfloat \<Rightarrow> py_error + int" where
  \<comment> \<open>the specification's percent: \<open>clamp(total/15, 0, 1) * 100\<close>, truncated toward zero\<close>
  "spec_percent fp total_risk =
     float_int (fmul fp (spec_clamp (fdiv fp total_risk (Finite 15)) (of_py_int 0) (of_py_int 1))
                        (of_py_int 100))"

definition mul100_sound :: "float_ops \<Rightarrow> bool" where
  \<comment> \<open>what the comparison of the two formulas needs of the product with 100: it is exact
      at 0 and at 1, gives no number for no number, and is monotone\<close>
  "mul100_sound fp \<longleftrightarrow>
     fmul fp (of_py_int 0) (of_py_int 100) = of_py_int 0 \<and>
     fmul fp (of_py_int 1) (of_py_int 100) = of_py_int 100 \<and>
     fmul fp NaN (of_py_int 100) = NaN \<and>
     (\<forall>a b. float_le a b \<longrightarrow> float_le (fmul fp a (of_py_int 100)) (fmul fp b (of_py_int 100)))"

definition DBL_MAX :: real where
  \<comment> \<open>the largest double\<close>
  "DBL_MAX = (2 ^ 53 - 1) * 2 ^ 971"

fun exact_add :: "pyfloat \<Rightarrow> pyfloat \<Rightarrow> pyfloat" where
  "exact_add (Finite a) (Finite b) = Finite (a + b)"
| "exact_add NaN _ = NaN"
| "exact_add _ NaN = NaN"
| "exact_add PosInf NegInf = NaN"
| "exact_add NegInf PosInf = NaN"
| "exact_add PosInf _ = PosInf"
| "exact_add _ PosInf = PosInf"
| "exact_add NegInf _ = NegInf"
| "exact_add _ NegInf = NegInf"

fun scale_inf :: "bool \<Rightarrow> real \<Rightarrow> pyfloat" where
  \<comment> \<open>an infinity (the positive one for \<open>True\<close>) times a real number\<close>
  "scale_inf pos y =
     (if y = 0 then NaN else if (0 < y) = pos then PosInf else NegInf)"

fun exact_mul :: "pyfloat \<Rightarrow> pyfloat \<Rightarrow> pyfloat" where
  "exact_mul (Finite a) (Finite b) = Finite (a * b)"
| "exact_mul NaN _ = NaN"
| "exact_mul _ NaN = NaN"
| "exact_mul PosInf (Finite b) = scale_inf True b"
| "exact_mul NegInf (Finite b) = scale_inf False b"
| "exact_mul (Finite a) PosInf = scale_inf True a"
| "exact_mul (Finite a) NegInf = scale_inf False a"
| "exact_mul PosInf PosInf = PosInf"
| "exact_mul NegInf NegInf = PosInf"
| "exact_mul PosInf NegInf = NegInf"
| "exact_mul NegInf PosInf = NegInf"

fun exact_div :: "pyfloat \<Rightarrow> pyfloat \<Rightarrow> pyfloat" where
  \<comment> \<open>the divisors of the code are 7 and 15; a zero divisor, which raises in Python, is
      never met\<close>
  "exact_div (Finite a) (Finite b) = (if b = 0 then NaN else Finite (a / b))"
| "exact_div NaN _ = NaN"
| "exact_div _ NaN = NaN"
| "exact_div PosInf (Finite b) = (if 0 \<le> b then PosInf else NegInf)"
| "exact_div NegInf (Finite b) = (if 0 \<le> b then NegInf else PosInf)"
| "exact_div (Finite a) _ = Finite 0"
| "exact_div _ _ = NaN"

fun exact_exp :: "pyfloat \<Rightarrow> py_error + pyfloat" where
  "exact_exp (Finite x) = (if DBL_MAX < exp x then Inl OverflowError else Inr (Finite (exp x)))"
| "exact_exp PosInf = Inr PosInf"
| "exact_exp NegInf = Inr (Finite 0)"
| "exact_exp NaN = Inr NaN"

definition exact_ops :: float_ops where
  \<comment> \<open>arithmetic without rounding: the operations of the machine wherever their exact
      result is a double; \<open>math.exp\<close> raises beyond the largest double\<close>
  "exact_ops =
     \<lparr>fadd = exact_add, fmul = exact_mul, fdiv = exact_div,
      flog = (\<lambda>n. Finite (ln (real n))), fexp = exact_exp\<rparr>"

section \<open>Properties\<close>

subsection \<open>Text normalisation\<close>

lemma is_space_blank: "is_space (CHR '' '')"
  by (simp add: is_space_def)

lemma alnum_not_space: "is_ascii_alnum c \<Longrightarrow> \<not> is_space c"
  by (auto simp: is_ascii_alnum_def is_ascii_upper_def is_ascii_lower_def is_digit_def is_space_def)

lemma lower_char_alnum:
  "is_ascii_alnum c \<Longrightarrow> is_ascii_lower (lower_char c) \<or> is_digit (lower_char c)"
  by (auto simp: is_ascii_alnum_def is_ascii_upper_def is_ascii_lower_def is_digit_def lower_char_def Let_def)

lemma lower_char_blank: "lower_char (CHR '' '') = CHR '' ''"
  by (simp add: lower_char_def)

lemma lower_char_alnum_not_blank: "is_ascii_alnum c \<Longrightarrow> lower_char c \<noteq> CHR '' ''"
  using lower_char_alnum [of c] by (auto simp: is_ascii_lower_def is_digit_def)

lemma lower_char_clean: "clean_char c \<Longrightarrow> lower_char c = c"
  by (auto simp: clean_char_def is_ascii_lower_def is_digit_def lower_char_def)

lemma special_to_space_chars:
  "c \<in> set (special_to_space s) \<Longrightarrow> is_ascii_alnum c \<or> is_space c"
  by (auto simp: special_to_space_def is_space_blank)

lemma collapse_from_chars:
  "\<forall>c\<in>set s. is_ascii_alnum c \<or> is_space c \<Longrightarrow>
   \<forall>c\<in>set (collapse_from b s). is_ascii_alnum c \<or> c = CHR '' ''"
  by (induction s arbitrary: b) auto

lemma collapse_from_single:
  "single_spaced (collapse_from b s) \<and>
   (b \<longrightarrow> collapse_from b s = [] \<or> hd (collapse_from b s) \<noteq> CHR '' '')"
proof (induction s arbitrary: b)
  case Nil
  show ?case by simp
next
  case (Cons c cs)
  show ?case
  proof (cases "is_space c")
    case True
    with Cons [of True] show ?thesis
      by (cases "collapse_from True cs") auto
  next
    case False
    then have "c \<noteq> CHR '' ''" using is_space_blank by auto
    with False Cons [of False] show ?thesis
      by (cases "collapse_from False cs") auto
  qed
qed

lemma single_spaced_Cons: "single_spaced (c # cs) \<Longrightarrow> single_spaced cs"
  by (cases cs) auto

lemma single_spaced_append_right: "single_spaced (xs @ ys) \<Longrightarrow> single_spaced ys"
  by (induction xs) (auto dest: single_spaced_Cons)

lemma single_spaced_append_left: "single_spaced (xs @ ys) \<Longrightarrow> single_spaced xs"
proof (induction xs rule: single_spaced.induct)
  case (1 c d cs)
  then show ?case by auto
qed auto

lemma strip_decomp: "\<exists>a b. s = a @ strip s @ b"
proof -
  let ?u = "dropWhile is_space s"
  have "?u = rev (takeWhile is_space (rev ?u) @ dropWhile is_space (rev ?u))"
    by (simp only: takeWhile_dropWhile_id rev_rev_ident)
  then have "?u = strip s @ rev (takeWhile is_space (rev ?u))"
    by (simp only: rev_append strip_def)
  moreover have "s = takeWhile is_space s @ ?u" by simp
  ultimately have "s = takeWhile is_space s @ strip s @ rev (takeWhile is_space (rev ?u))"
    by simp
  then show ?thesis by blast
qed

lemma strip_set: "set (strip s) \<subseteq> set s"
proof -
  obtain a b where "s = a @ strip s @ b" using strip_decomp by blast
  then have "set s = set a \<union> set (strip s) \<union> set b" by (metis set_append sup_assoc)
  then show ?thesis by blast
qed

lemma strip_single: "single_spaced s \<Longrightarrow> single_spaced (strip s)"
proof -
  assume a: "single_spaced s"
  obtain x y where "s = x @ strip s @ y" using strip_decomp by blast
  with a have "single_spaced (x @ strip s @ y)" by simp
  then show ?thesis using single_spaced_append_left single_spaced_append_right by blast
qed

lemma strip_last: "strip s \<noteq> [] \<Longrightarrow> \<not> is_space (last (strip s))"
  by (simp add: strip_def last_rev hd_dropWhile)

lemma strip_hd: "strip s \<noteq> [] \<Longrightarrow> \<not> is_space (hd (strip s))"
proof -
  assume ne: "strip s \<noteq> []"
  let ?u = "dropWhile is_space s"
  let ?d = "dropWhile is_space (rev ?u)"
  from ne have d: "?d \<noteq> []" unfolding strip_def rev_is_Nil_conv .
  have "?d = []" if "?u = []" unfolding that by simp
  with d have u: "?u \<noteq> []" by blast
  have "hd (strip s) = last ?d" using d by (simp add: strip_def hd_rev)
  also have "\<dots> = last (rev ?u)"
    using d by (metis append_Nil2 last_appendR takeWhile_dropWhile_id)
  also have "\<dots> = hd ?u" using u by (simp add: last_rev)
  finally show ?thesis using u hd_dropWhile by metis
qed

lemma single_spaced_map_lower:
  "\<forall>c\<in>set s. is_ascii_alnum c \<or> c = CHR '' '' \<Longrightarrow> single_spaced s \<Longrightarrow>
   single_spaced (map lower_char s)"
proof (induction s rule: single_spaced.induct)
  case (1 c d cs)
  then show ?case by (auto simp: lower_char_blank dest: lower_char_alnum_not_blank)
qed auto

lemma single_spaced_no_double: "single_spaced s \<Longrightarrow> \<not> contains ''  '' s"
proof (induction s rule: single_spaced.induct)
  case (1 c d cs)
  then show ?case by (auto simp: startswith_def)
qed (auto simp: startswith_def)

lemma pre_lower_chars: "\<forall>c\<in>set (pre_lower s). is_ascii_alnum c \<or> c = CHR '' ''"
proof -
  have "\<forall>c\<in>set (collapse_ws (special_to_space s)). is_ascii_alnum c \<or> c = CHR '' ''"
    unfolding collapse_ws_def
    by (rule collapse_from_chars) (auto dest: special_to_space_chars)
  then show ?thesis unfolding pre_lower_def using strip_set by blast
qed

lemma pre_lower_single: "single_spaced (pre_lower s)"
  unfolding pre_lower_def collapse_ws_def
  by (rule strip_single) (simp add: collapse_from_single)

lemma pre_lower_ends:
  "pre_lower s \<noteq> [] \<Longrightarrow> hd (pre_lower s) \<noteq> CHR '' '' \<and> last (pre_lower s) \<noteq> CHR '' ''"
  unfolding pre_lower_def using strip_hd strip_last is_space_blank by metis

lemma clean_text_eq:
  "clean_text s =
     (if s = [] then []
      else str_lower (pre_lower (re_delete match_www None 0 (re_delete match_url None 0
             (re_delete match_tag None 0 s)))))"
  by (simp add: clean_text_def pre_lower_def Let_def)

lemma str_lower_pre_lower_clean:
  "(\<forall>c\<in>set (str_lower (pre_lower s)). clean_char c) \<and>
   single_spaced (str_lower (pre_lower s)) \<and>
   (str_lower (pre_lower s) \<noteq> [] \<longrightarrow>
      hd (str_lower (pre_lower s)) \<noteq> CHR '' '' \<and> last (str_lower (pre_lower s)) \<noteq> CHR '' '')"
proof (intro conjI impI)
  show "\<forall>c\<in>set (str_lower (pre_lower s)). clean_char c"
    using pre_lower_chars [of s]
    by (auto simp: str_lower_def clean_char_def lower_char_blank dest: lower_char_alnum)
  show "single_spaced (str_lower (pre_lower s))"
    unfolding str_lower_def
    by (rule single_spaced_map_lower) (simp_all add: pre_lower_chars pre_lower_single)
next
  assume ne: "str_lower (pre_lower s) \<noteq> []"
  then have ne': "pre_lower s \<noteq> []" by (auto simp: str_lower_def)
  have h: "hd (pre_lower s) \<in> set (pre_lower s)" and l: "last (pre_lower s) \<in> set (pre_lower s)"
    using ne' by simp_all
  have nb: "c \<in> set (pre_lower s) \<Longrightarrow> c \<noteq> CHR '' '' \<Longrightarrow> lower_char c \<noteq> CHR '' ''" for c
    using pre_lower_chars [of s] lower_char_alnum_not_blank by blast
  show "hd (str_lower (pre_lower s)) \<noteq> CHR '' ''"
    using ne' pre_lower_ends [OF ne'] nb [OF h] by (simp add: str_lower_def hd_map)
  show "last (str_lower (pre_lower s)) \<noteq> CHR '' ''"
    using ne' pre_lower_ends [OF ne'] nb [OF l] by (simp add: str_lower_def last_map)
qed

lemma clean_text_normal:
  "(\<forall>c\<in>set (clean_text s). clean_char c) \<and> single_spaced (clean_text s) \<and>
   (clean_text s \<noteq> [] \<longrightarrow> hd (clean_text s) \<noteq> CHR '' '' \<and> last (clean_text s) \<noteq> CHR '' '')"
proof (cases "s = []")
  case True
  then show ?thesis by (simp add: clean_text_def)
next
  case False
  then obtain x where "clean_text s = str_lower (pre_lower x)"
    by (simp add: clean_text_eq)
  then show ?thesis by (simp only:) (rule str_lower_pre_lower_clean)
qed

lemma re_delete_set: "set (re_delete m prev k s) \<subseteq> set s"
proof (induction m prev k s rule: re_delete.induct)
  case (3 m prev c cs)
  show ?case
  proof (cases "m prev (c # cs)")
    case None
    with 3 show ?thesis by auto
  next
    case (Some n)
    with 3 show ?thesis by (cases n) auto
  qed
qed auto

lemma collapse_from_spaces:
  "\<forall>c\<in>set s. is_space c \<Longrightarrow> \<forall>c\<in>set (collapse_from b s). is_space c"
  by (induction s arbitrary: b) (auto simp: is_space_blank)

lemma strip_spaces: "\<forall>c\<in>set s. is_space c \<Longrightarrow> strip s = []"
proof -
  assume "\<forall>c\<in>set s. is_space c"
  then have e: "dropWhile is_space s = []" by simp
  show ?thesis unfolding strip_def e by simp
qed

lemma clean_text_noise:
  assumes "\<forall>c\<in>set s. \<not> is_ascii_alnum c"
  shows "clean_text s = []"
proof (cases "s = []")
  case True
  then show ?thesis by (simp add: clean_text_def)
next
  case False
  let ?x = "re_delete match_www None 0 (re_delete match_url None 0 (re_delete match_tag None 0 s))"
  have "set ?x \<subseteq> set s" using re_delete_set by (meson subset_trans)
  with assms have "\<forall>c\<in>set ?x. \<not> is_ascii_alnum c" by blast
  then have "\<forall>c\<in>set (special_to_space ?x). is_space c"
    by (auto simp: special_to_space_def is_space_blank)
  then have "\<forall>c\<in>set (collapse_ws (special_to_space ?x)). is_space c"
    unfolding collapse_ws_def by (rule collapse_from_spaces)
  then have "pre_lower ?x = []" unfolding pre_lower_def by (rule strip_spaces)
  then show ?thesis using False by (simp add: clean_text_eq str_lower_def)
qed

text \<open>
  Claim C7. For every input, \<open>clean_text\<close> returns a text of lowercase letters, digits
  and single spaces only, with no space at either end; an input without any letter or
  digit (the empty text among them) gives the empty text. The function has no failing
  branch: it is a total function of its argument alone.
\<close>

theorem clean_text_normalized:
  "(\<forall>c\<in>set (clean_text s). is_ascii_lower c \<or> is_digit c \<or> c = CHR '' '') \<and>
   \<not> contains ''  '' (clean_text s) \<and>
   (clean_text s \<noteq> [] \<longrightarrow> hd (clean_text s) \<noteq> CHR '' '' \<and> last (clean_text s) \<noteq> CHR '' '') \<and>
   ((\<forall>c\<in>set s. \<not> is_ascii_alnum c) \<longrightarrow> clean_text s = [])"
  using clean_text_normal [of s] clean_text_noise [of s] single_spaced_no_double [of "clean_text s"]
  by (simp add: clean_char_def)

lemma clean_text_sample: "clean_text sample_markup = ''hello world see and now ok''"
  unfolding sample_markup_def by code_simp

lemma clean_text_noise_sample: "clean_text ''<:> -- !?'' = []"
  by code_simp

theorem clean_text_normalized_witness:
  "clean_text sample_markup = ''hello world see and now ok'' \<and>
   list_all (\<lambda>c. is_ascii_lower c \<or> is_digit c \<or> c = CHR '' '') (clean_text sample_markup) \<and>
   \<not> contains ''  '' (clean_text sample_markup) \<and>
   hd (clean_text sample_markup) \<noteq> CHR '' '' \<and>
   last (clean_text sample_markup) \<noteq> CHR '' '' \<and>
   clean_text ''<:> -- !?'' = []"
proof -
  have n: "\<forall>c\<in>set ''<:> -- !?''. \<not> is_ascii_alnum c"
    by (simp add: is_ascii_alnum_def is_ascii_upper_def is_ascii_lower_def is_digit_def)
  have e: "clean_text ''<:> -- !?'' = []"
    using clean_text_normalized [of "''<:> -- !?''"] n by blast
  have ne: "clean_text sample_markup \<noteq> []" by (simp add: clean_text_sample)
  have "(\<forall>c\<in>set (clean_text sample_markup). is_ascii_lower c \<or> is_digit c \<or> c = CHR '' '') \<and>
   \<not> contains ''  '' (clean_text sample_markup) \<and>
   hd (clean_text sample_markup) \<noteq> CHR '' '' \<and> last (clean_text sample_markup) \<noteq> CHR '' ''"
    using clean_text_normalized [of sample_markup] ne by blast
  then show ?thesis using e by (simp add: list_all_iff clean_text_sample)
qed

subsection \<open>Normalised texts are fixed points\<close>

lemma normal_clean_text: "normal (clean_text s)"
  unfolding normal_def by (rule clean_text_normal)

lemma re_delete_none:
  assumes "\<And>p u. \<forall>c\<in>set u. P c \<Longrightarrow> m p u = None"
  shows "\<forall>c\<in>set s. P c \<Longrightarrow> re_delete m prev 0 s = s"
  by (induction s arbitrary: prev) (simp_all add: assms)

lemma startswith_set: "startswith u p \<Longrightarrow> set p \<subseteq> set u"
  unfolding startswith_def by (metis set_take_subset)

lemma clean_char_not_special:
  "clean_char c \<Longrightarrow> c \<noteq> CHR ''<'' \<and> c \<noteq> CHR '':'' \<and> c \<noteq> CHR ''.''"
  by (auto simp: clean_char_def is_ascii_lower_def is_digit_def)

lemma match_tag_clean: "\<forall>c\<in>set u. clean_char c \<Longrightarrow> match_tag p u = None"
  by (cases u) (auto simp: match_tag_def Let_def dest: clean_char_not_special)

lemma match_url_clean:
  assumes "\<forall>c\<in>set u. clean_char c"
  shows "match_url p u = None"
proof -
  have "\<not> startswith u ''https://''"
    using assms startswith_set [of u "''https://''"] clean_char_not_special [of "CHR '':''"] by auto
  moreover have "\<not> startswith u ''http://''"
    using assms startswith_set [of u "''http://''"] clean_char_not_special [of "CHR '':''"] by auto
  ultimately show ?thesis by (simp add: match_url_def)
qed

lemma match_www_clean:
  assumes "\<forall>c\<in>set u. clean_char c"
  shows "match_www p u = None"
proof -
  have "\<not> startswith u ''www.''"
    using assms startswith_set [of u "''www.''"] clean_char_not_special [of "CHR ''.''"] by auto
  then show ?thesis by (simp add: match_www_def)
qed

lemma clock_len_colon: "clock_len u = Some k \<Longrightarrow> CHR '':'' \<in> set u"
  by (induction u rule: clock_len.induct) (auto split: if_splits)

lemma match_time_clean:
  assumes "\<forall>c\<in>set u. clean_char c"
  shows "match_time p u = None"
proof -
  have "clock_len (drop 3 u) = None"
  proof (cases "clock_len (drop 3 u)")
    case (Some k)
    then have "CHR '':'' \<in> set (drop 3 u)" by (rule clock_len_colon)
    then have "CHR '':'' \<in> set u" by (meson in_set_dropD)
    with assms show ?thesis using clean_char_not_special by blast
  qed simp
  then show ?thesis by (simp add: match_time_def)
qed

lemma clean_char_space: "clean_char c \<Longrightarrow> is_space c \<longleftrightarrow> c = CHR '' ''"
  using alnum_not_space [of c] is_space_blank
  by (auto simp: clean_char_def is_ascii_alnum_def)

lemma special_to_space_clean: "\<forall>c\<in>set t. clean_char c \<Longrightarrow> special_to_space t = t"
  unfolding special_to_space_def
  by (rule map_idI) (auto simp: clean_char_def is_ascii_alnum_def is_space_blank)

lemma collapse_from_clean:
  "\<forall>c\<in>set t. clean_char c \<Longrightarrow> single_spaced t \<Longrightarrow> (b \<longrightarrow> t = [] \<or> hd t \<noteq> CHR '' '') \<Longrightarrow>
   collapse_from b t = t"
proof (induction t arbitrary: b)
  case Nil
  show ?case by simp
next
  case (Cons c cs)
  have cs: "\<forall>c\<in>set cs. clean_char c" "single_spaced cs"
    using Cons.prems by (auto dest: single_spaced_Cons)
  show ?case
  proof (cases "c = CHR '' ''")
    case True
    then have nb: "\<not> b" using Cons.prems by auto
    have "cs = [] \<or> hd cs \<noteq> CHR '' ''"
      using Cons.prems(2) True by (cases cs) auto
    then have "collapse_from True cs = cs" using Cons.IH [of True] cs by blast
    then show ?thesis using True nb by (simp add: is_space_blank)
  next
    case False
    then have "\<not> is_space c" using Cons.prems(1) clean_char_space by auto
    moreover have "collapse_from False cs = cs" using Cons.IH [of False] cs by blast
    ultimately show ?thesis by simp
  qed
qed

lemma strip_clean:
  assumes "normal t"
  shows "strip t = t"
proof (cases "t = []")
  case True
  then show ?thesis by (simp add: strip_def)
next
  case False
  have h: "hd t \<in> set t" and l: "last t \<in> set t" using False by simp_all
  have "\<not> is_space (hd t)" using assms False h clean_char_space unfolding normal_def by blast
  then have d: "dropWhile is_space t = t" using False by (cases t) auto
  have "\<not> is_space (last t)" using assms False l clean_char_space unfolding normal_def by blast
  then have "\<not> is_space (hd (rev t))" using False by (simp add: hd_rev)
  then have "dropWhile is_space (rev t) = rev t" using False by (cases "rev t") auto
  then show ?thesis unfolding strip_def d by simp
qed

lemma str_lower_clean: "\<forall>c\<in>set t. clean_char c \<Longrightarrow> str_lower t = t"
  unfolding str_lower_def by (rule map_idI) (simp add: lower_char_clean)

lemma clean_text_fixed:
  assumes "normal t"
  shows "clean_text t = t"
proof (cases "t = []")
  case True
  then show ?thesis by (simp add: clean_text_def)
next
  case False
  have c: "\<forall>c\<in>set t. clean_char c" using assms by (simp add: normal_def)
  have 1: "re_delete match_tag None 0 t = t"
    by (rule re_delete_none [where P = clean_char]) (simp_all add: match_tag_clean c)
  have 2: "re_delete match_url None 0 t = t"
    by (rule re_delete_none [where P = clean_char]) (simp_all add: match_url_clean c)
  have 3: "re_delete match_www None 0 t = t"
    by (rule re_delete_none [where P = clean_char]) (simp_all add: match_www_clean c)
  have 4: "collapse_ws t = t"
    unfolding collapse_ws_def using assms by (intro collapse_from_clean) (simp_all add: normal_def)
  show ?thesis
    using False by (simp add: clean_text_eq pre_lower_def 1 2 3 4 special_to_space_clean c strip_clean assms str_lower_clean)
qed

lemma clean_text_idem: "clean_text (clean_text s) = clean_text s"
  by (rule clean_text_fixed) (rule normal_clean_text)

lemma strip_connector_set: "set (strip_connector t) \<subseteq> set t"
proof -
  have "set (dropWhile is_space (drop k t)) \<subseteq> set t" for k
    by (meson set_dropWhileD in_set_dropD subsetI)
  then show ?thesis by (simp add: strip_connector_def Let_def)
qed

lemma search_term_no_time_strip: "search_term rest = strip_connector (clean_text rest)"
proof -
  have "\<forall>c\<in>set (strip_connector (clean_text rest)). clean_char c"
    using strip_connector_set [of "clean_text rest"] clean_text_normal [of rest] by blast
  then have "re_delete match_time None 0 (strip_connector (clean_text rest)) =
             strip_connector (clean_text rest)"
    by (intro re_delete_none [where P = clean_char]) (simp_all add: match_time_clean)
  then show ?thesis by (simp add: search_term_def Let_def)
qed

subsection \<open>Search analyzer\<close>

lemma split_after_None_iff: "split_after p s = None \<longleftrightarrow> \<not> contains p s"
  by (induction s) auto

lemma incr_keys: "map fst (incr k cs) = map fst cs"
  by (induction cs) (auto simp: incr_def)

lemma count_of_incr:
  "count_of (incr k cs) k' =
     (if k' = k \<and> k \<in> fst ` set cs then count_of cs k' + 1 else count_of cs k')"
proof (induction cs)
  case Nil
  show ?case by (simp add: incr_def count_of_def)
next
  case (Cons a cs)
  obtain x n where a: "a = (x, n)" by (cases a)
  have i: "incr k ((x, n) # cs) = (if x = k then (x, n + 1) else (x, n)) # incr k cs"
    by (simp add: incr_def)
  show ?case
  proof (cases "k' = x")
    case True
    then show ?thesis by (simp add: i a count_of_def)
  next
    case False
    then have "count_of (incr k (a # cs)) k' = count_of (incr k cs) k'"
      by (auto simp: a i count_of_def)
    moreover have "count_of (a # cs) k' = count_of cs k'"
      using False by (simp add: a count_of_def)
    moreover have "k' = k \<Longrightarrow> (k \<in> fst ` set (a # cs)) = (k \<in> fst ` set cs)"
      using False by (auto simp: a)
    ultimately show ?thesis using Cons.IH by auto
  qed
qed

lemma search_phrase_loop_miss:
  "\<forall>p\<in>set ps. \<not> contains p text \<Longrightarrow> search_phrase_loop ps text st = (st, False)"
  by (induction ps) (auto simp: split_after_None_iff [symmetric])

lemma search_phrase_loop_hit:
  "p \<in> set ps \<Longrightarrow> contains p text \<Longrightarrow>
   \<exists>rest. (\<exists>q\<in>set ps. split_after q text = Some rest) \<and>
     search_phrase_loop ps text st =
       (st\<lparr>categories := incr ''Search'' (categories st),
           items := (if search_term rest \<noteq> [] then items st @ [search_term rest] else items st)\<rparr>,
        True)"
proof (induction ps)
  case Nil
  then show ?case by simp
next
  case (Cons a ps)
  show ?case
  proof (cases "split_after a text")
    case None
    then have "a \<noteq> p" using Cons.prems(2) by (auto simp: split_after_None_iff)
    then have "p \<in> set ps" using Cons.prems(1) by simp
    from Cons.IH [OF this Cons.prems(2)] None show ?thesis by auto
  next
    case (Some rest)
    then show ?thesis by (auto simp: Let_def)
  qed
qed

lemma search_step_keys:
  "map fst (categories (search_step parse st b)) = map fst (categories st)"
proof -
  have "map fst (categories (fst (search_phrase_loop ps tx st))) = map fst (categories st)"
    for ps tx
    by (induction ps) (auto simp: incr_keys Let_def split: option.splits)
  then show ?thesis
    by (auto simp: search_step_def Let_def incr_keys split: prod.splits) (metis fst_conv)+
qed

lemma search_scan_snoc:
  "search_scan parse (bs @ [b]) = search_step parse (search_scan parse bs) b"
  by (simp add: search_scan_def)

lemma search_scan_keys: "map fst (categories (search_scan parse bs)) = [''Search'', ''Other'']"
  by (induction bs rule: rev_induct)
     (simp_all add: search_scan_snoc search_step_keys, simp add: search_scan_def search_init_def)

lemma search_scan_key_set:
  "fst ` set (categories (search_scan parse bs)) = {''Search'', ''Other''}"
proof -
  have "fst ` set (categories (search_scan parse bs)) = set (map fst (categories (search_scan parse bs)))"
    by simp
  then show ?thesis unfolding search_scan_keys by auto
qed

lemma search_step_miss:
  assumes "\<forall>p\<in>set search_phrases. \<not> contains p (get_text '' '' (texts b))"
  shows "categories (search_step parse st b) = incr ''Other'' (categories st) \<and>
         items (search_step parse st b) = items st"
  using search_phrase_loop_miss [OF assms, of st]
  by (simp add: search_step_def Let_def)

lemma search_step_hit:
  assumes "p \<in> set search_phrases" "contains p (get_text '' '' (texts b))"
  shows "\<exists>rest. (\<exists>q\<in>set search_phrases. split_after q (get_text '' '' (texts b)) = Some rest) \<and>
           categories (search_step parse st b) = incr ''Search'' (categories st) \<and>
           items (search_step parse st b) =
             (if search_term rest \<noteq> [] then items st @ [search_term rest] else items st)"
proof -
  from search_phrase_loop_hit [OF assms, of st] obtain rest where
    r: "\<exists>q\<in>set search_phrases. split_after q (get_text '' '' (texts b)) = Some rest" and
    l: "search_phrase_loop search_phrases (get_text '' '' (texts b)) st =
         (st\<lparr>categories := incr ''Search'' (categories st),
             items := (if search_term rest \<noteq> [] then items st @ [search_term rest] else items st)\<rparr>,
          True)"
    by blast
  show ?thesis
    by (rule exI [of _ rest]) (simp add: r search_step_def Let_def l)
qed

text \<open>
  Claim C10. In the search analyzer the phrases are matched as they are written: a block
  whose text holds none of the three literals \<open>Searched for\<close>, \<open>You searched for\<close>,
  \<open>Searched on Google for\<close> (a lowercase \<open>searched for cats\<close>, say) raises the counter
  \<open>Other\<close>, leaves \<open>Search\<close> as it is and adds no search term.
\<close>

theorem search_case_sensitive:
  assumes "\<not> contains ''Searched for'' (get_text '' '' (texts b))"
    and "\<not> contains ''You searched for'' (get_text '' '' (texts b))"
    and "\<not> contains ''Searched on Google for'' (get_text '' '' (texts b))"
  shows "count_of (categories (search_scan parse (bs @ [b]))) ''Other'' =
           count_of (categories (search_scan parse bs)) ''Other'' + 1 \<and>
         count_of (categories (search_scan parse (bs @ [b]))) ''Search'' =
           count_of (categories (search_scan parse bs)) ''Search'' \<and>
         items (search_scan parse (bs @ [b])) = items (search_scan parse bs)"
proof -
  have "\<forall>p\<in>set search_phrases. \<not> contains p (get_text '' '' (texts b))"
    using assms by (simp add: search_phrases_def)
  from search_step_miss [OF this, of parse "search_scan parse bs"]
  show ?thesis
    by (simp add: search_scan_snoc count_of_incr search_scan_key_set)
qed

lemma lowercase_block_text: "get_text '' '' (texts lowercase_block) = ''searched for cats''"
  unfolding lowercase_block_def text_block_def by code_simp

lemma search_scan_Nil: "search_scan parse [] = search_init"
  by (simp add: search_scan_def)

theorem search_case_sensitive_witness:
  "\<not> contains ''Searched for'' (get_text '' '' (texts lowercase_block)) \<and>
   \<not> contains ''You searched for'' (get_text '' '' (texts lowercase_block)) \<and>
   \<not> contains ''Searched on Google for'' (get_text '' '' (texts lowercase_block)) \<and>
   contains ''searched for'' (get_text '' '' (texts lowercase_block)) \<and>
   count_of (categories (search_scan no_time [lowercase_block])) ''Other'' = 1 \<and>
   count_of (categories (search_scan no_time [lowercase_block])) ''Search'' = 0 \<and>
   items (search_scan no_time [lowercase_block]) = []"
proof -
  have 1: "\<not> contains ''Searched for'' (get_text '' '' (texts lowercase_block))"
    unfolding lowercase_block_text by code_simp
  have 2: "\<not> contains ''You searched for'' (get_text '' '' (texts lowercase_block))"
    unfolding lowercase_block_text by code_simp
  have 3: "\<not> contains ''Searched on Google for'' (get_text '' '' (texts lowercase_block))"
    unfolding lowercase_block_text by code_simp
  have 4: "contains ''searched for'' (get_text '' '' (texts lowercase_block))"
    unfolding lowercase_block_text by code_simp
  from search_case_sensitive [OF 1 2 3, of no_time "[]"]
  show ?thesis using 1 2 3 4
    by (simp add: search_scan_Nil search_init_def count_of_def)
qed

text \<open>
  Claim C8. In the search analyzer, every block whose text holds one of the search
  phrases raises the counter \<open>Search\<close> by one, whatever the term behind the phrase is: a
  term that is empty after the normalisation is left out of the list of terms, and the
  counter is raised all the same.
\<close>

theorem search_counts_empty_term:
  assumes "p \<in> set search_phrases" and "contains p (get_text '' '' (texts b))"
  shows "\<exists>rest. (\<exists>q\<in>set search_phrases. split_after q (get_text '' '' (texts b)) = Some rest) \<and>
           count_of (categories (search_scan parse (bs @ [b]))) ''Search'' =
             count_of (categories (search_scan parse bs)) ''Search'' + 1 \<and>
           count_of (categories (search_scan parse (bs @ [b]))) ''Other'' =
             count_of (categories (search_scan parse bs)) ''Other'' \<and>
           items (search_scan parse (bs @ [b])) =
             (if search_term rest = [] then items (search_scan parse bs)
              else items (search_scan parse bs) @ [search_term rest])"
proof -
  from search_step_hit [OF assms, of parse "search_scan parse bs"] obtain rest where
    r: "\<exists>q\<in>set search_phrases. split_after q (get_text '' '' (texts b)) = Some rest" and
    c: "categories (search_step parse (search_scan parse bs) b) =
          incr ''Search'' (categories (search_scan parse bs))" and
    i: "items (search_step parse (search_scan parse bs) b) =
          (if search_term rest \<noteq> [] then items (search_scan parse bs) @ [search_term rest]
           else items (search_scan parse bs))"
    by blast
  show ?thesis
    by (rule exI [of _ rest])
       (simp add: r search_scan_snoc c i count_of_incr search_scan_key_set)
qed

lemma empty_term_block_text: "get_text '' '' (texts empty_term_block) = ''Searched for ...''"
  unfolding empty_term_block_def text_block_def by code_simp

lemma empty_term_scan:
  "search_scan no_time [empty_term_block] =
     \<lparr>categories = [(''Search'', 1), (''Other'', 0)], items = [], activity_times = []\<rparr>"
  unfolding empty_term_block_def text_block_def by code_simp

theorem search_counts_empty_term_witness:
  "''Searched for'' \<in> set search_phrases \<and>
   contains ''Searched for'' (get_text '' '' (texts empty_term_block)) \<and>
   split_after ''Searched for'' (get_text '' '' (texts empty_term_block)) = Some '' ...'' \<and>
   search_term '' ...'' = [] \<and>
   count_of (categories (search_scan no_time ([] @ [empty_term_block]))) ''Search'' =
     count_of (categories (search_scan no_time [])) ''Search'' + 1 \<and>
   items (search_scan no_time ([] @ [empty_term_block])) = items (search_scan no_time [])"
proof -
  have 1: "''Searched for'' \<in> set search_phrases" by (simp add: search_phrases_def)
  have 2: "contains ''Searched for'' (get_text '' '' (texts empty_term_block))"
    unfolding empty_term_block_text by code_simp
  have 3: "split_after ''Searched for'' (get_text '' '' (texts empty_term_block)) = Some '' ...''"
    unfolding empty_term_block_text by code_simp
  have 4: "search_term '' ...'' = []" by code_simp
  from search_counts_empty_term [OF 1 2, of no_time "[]"]
  have "count_of (categories (search_scan no_time ([] @ [empty_term_block]))) ''Search'' =
          count_of (categories (search_scan no_time [])) ''Search'' + 1"
    by blast
  moreover have "items (search_scan no_time ([] @ [empty_term_block])) = items (search_scan no_time [])"
    by (simp add: empty_term_scan search_scan_Nil search_init_def)
  ultimately show ?thesis using 1 2 3 4 by simp
qed

text \<open>
  Claim C2 is not what the code does. On a block with the text
  \<open>Searched for cats and dogs at 10:30\<close> the counter \<open>Search\<close> becomes 1, but the term
  added to the list is \<open>cats and dogs at 10 30\<close>: \<open>clean_text\<close> has turned the colon
  into a space before the pattern that should remove the time is applied, and that
  pattern needs the colon. The ranked list shows \<open>cats and dogs\<close> only because the
  aggregation drops words of one or two characters.
\<close>

theorem search_time_fragment_kept:
  "items (search_scan no_time [timed_search_block]) = [''cats and dogs at 10 30''] \<and>
   categories (search_scan no_time [timed_search_block]) = [(''Search'', 1), (''Other'', 0)] \<and>
   analyze_search_file no_time [timed_search_block] =
     ([(''Search'', 1), (''Other'', 0)], [(''cats and dogs'', 1)], [])"
  unfolding timed_search_block_def text_block_def by code_simp

subsection \<open>Counters of the analyzers\<close>

text \<open>
  Claim C9 is not what the code does. The loop over the three phrases of the YouTube
  analyzer has no \<open>break\<close>, unlike the loop of the search analyzer: a block whose text
  holds two of the phrases appends two queries. The text
  \<open>Searched for how to Search for files\<close> holds \<open>Searched for\<close> and \<open>Search for\<close>; it
  appends the queries \<open>how to search for files\<close> and \<open>files\<close>, and the counter \<open>Search\<close>
  of this single block is 2.
\<close>

theorem youtube_two_queries_one_block:
  "contains ''Searched for'' ''Searched for how to Search for files'' \<and>
   contains ''Search for'' ''Searched for how to Search for files'' \<and>
   youtube_queries ''Searched for how to Search for files'' = [''how to search for files'', ''files''] \<and>
   search_queries (youtube_scan no_time [double_phrase_block]) = [''how to search for files'', ''files''] \<and>
   fst (analyze_youtube_file no_time [double_phrase_block]) =
     [(''YouTube'', 0), (''Search'', 2), (''Maps'', 0), (''Shopping'', 0), (''Discover'', 0),
      (''Other'', 0)]"
  unfolding double_phrase_block_def text_block_def by code_simp

lemma generic_category_key: "generic_category low \<in> set generic_keys"
  by (simp add: generic_category_def generic_keys_def)

lemma generic_step_categories:
  "categories (generic_step sep parse st b) =
     incr (generic_category (str_lower (get_text '' '' (texts b)))) (categories st)"
  by (simp add: generic_step_def Let_def)

lemma generic_scan_snoc:
  "generic_scan sep parse (bs @ [b]) = generic_step sep parse (generic_scan sep parse bs) b"
  by (simp add: generic_scan_def)

lemma generic_scan_keys: "map fst (categories (generic_scan sep parse bs)) = generic_keys"
  by (induction bs rule: rev_induct)
     (simp_all add: generic_scan_snoc generic_step_categories incr_keys,
      simp add: generic_scan_def generic_init_def generic_keys_def)

lemma generic_scan_key_set: "fst ` set (categories (generic_scan sep parse bs)) = set generic_keys"
proof -
  have "fst ` set (categories (generic_scan sep parse bs)) =
        set (map fst (categories (generic_scan sep parse bs)))"
    by simp
  then show ?thesis unfolding generic_scan_keys .
qed

lemma generic_one_counter:
  "\<exists>k\<in>set generic_keys. \<forall>k'.
     count_of (categories (generic_scan sep parse (bs @ [b]))) k' =
     count_of (categories (generic_scan sep parse bs)) k' + (if k' = k then 1 else 0)"
proof
  let ?k = "generic_category (str_lower (get_text '' '' (texts b)))"
  show "?k \<in> set generic_keys" by (rule generic_category_key)
  show "\<forall>k'. count_of (categories (generic_scan sep parse (bs @ [b]))) k' =
     count_of (categories (generic_scan sep parse bs)) k' + (if k' = ?k then 1 else 0)"
    using generic_category_key [of "str_lower (get_text '' '' (texts b))"]
    by (simp add: generic_scan_snoc generic_step_categories count_of_incr generic_scan_key_set)
qed

lemma search_one_counter:
  "\<exists>k\<in>set [''Search'', ''Other'']. \<forall>k'.
     count_of (categories (search_scan parse (bs @ [b]))) k' =
     count_of (categories (search_scan parse bs)) k' + (if k' = k then 1 else 0)"
proof (cases "\<forall>p\<in>set search_phrases. \<not> contains p (get_text '' '' (texts b))")
  case True
  from search_step_miss [OF True, of parse "search_scan parse bs"]
  have "\<forall>k'. count_of (categories (search_scan parse (bs @ [b]))) k' =
     count_of (categories (search_scan parse bs)) k' + (if k' = ''Other'' then 1 else 0)"
    by (simp add: search_scan_snoc count_of_incr search_scan_key_set)
  then show ?thesis by simp
next
  case False
  then obtain p where "p \<in> set search_phrases" "contains p (get_text '' '' (texts b))" by blast
  from search_step_hit [OF this, of parse "search_scan parse bs"]
  have "\<forall>k'. count_of (categories (search_scan parse (bs @ [b]))) k' =
     count_of (categories (search_scan parse bs)) k' + (if k' = ''Search'' then 1 else 0)"
    by (auto simp: search_scan_snoc count_of_incr search_scan_key_set)
  then show ?thesis by simp
qed

lemma youtube_counts_are_sizes:
  "fst (analyze_youtube_file parse bs) =
     [(''YouTube'', length (video_titles (youtube_scan parse bs))),
      (''Search'', length (search_queries (youtube_scan parse bs))),
      (''Maps'', 0), (''Shopping'', 0), (''Discover'', 0), (''Other'', 0)]"
  by (simp add: analyze_youtube_file_def Let_def youtube_categories_def assign_def)

lemma counter_add_sum: "sum_list (map snd (counter_add x c)) = sum_list (map snd c) + 1"
  by (induction c) auto

lemma Counter_fold_sum:
  "sum_list (map snd (foldl (\<lambda>c x. counter_add x c) c0 xs)) = sum_list (map snd c0) + length xs"
  by (induction xs arbitrary: c0) (simp_all add: counter_add_sum)

lemma Counter_sum: "sum_list (map snd (Counter xs)) = length xs"
  by (simp add: Counter_def Counter_fold_sum)

lemma discover_count_is_size:
  "fst (analyze_discover_file parse bs) = [(''Discover'', length (dc_items (discover_scan parse bs)))]"
  by (simp add: analyze_discover_file_def Let_def assign_def Counter_sum)

text \<open>
  Claim C1, as the code has it. In the generic and in the search analyzer every block
  raises exactly one counter, by one, and leaves the others as they are. The YouTube
  analyzer does not count blocks: its counters \<open>YouTube\<close> and \<open>Search\<close> are the sizes
  of the list of titles and of the list of queries, and its other counters stay 0. The
  Discover analyzer does not count blocks either: its counter is the number of the
  items collected.
\<close>

theorem one_counter_per_block:
  "(\<exists>k\<in>set generic_keys. \<forall>k'.
      count_of (categories (generic_scan sep parse (bs @ [b]))) k' =
      count_of (categories (generic_scan sep parse bs)) k' + (if k' = k then 1 else 0)) \<and>
   (\<exists>k\<in>set [''Search'', ''Other'']. \<forall>k'.
      count_of (categories (search_scan parse (bs @ [b]))) k' =
      count_of (categories (search_scan parse bs)) k' + (if k' = k then 1 else 0)) \<and>
   fst (analyze_youtube_file parse soup) =
     [(''YouTube'', length (video_titles (youtube_scan parse soup))),
      (''Search'', length (search_queries (youtube_scan parse soup))),
      (''Maps'', 0), (''Shopping'', 0), (''Discover'', 0), (''Other'', 0)] \<and>
   fst (analyze_discover_file parse soup) =
     [(''Discover'', length (dc_items (discover_scan parse soup)))]"
  using generic_one_counter search_one_counter youtube_counts_are_sizes discover_count_is_size
  by blast

theorem one_counter_per_block_witness:
  "categories (generic_scan '' | '' no_time ([] @ [maps_block])) =
     [(''Search'', 0), (''YouTube'', 0), (''Maps'', 1), (''Shopping'', 0), (''Discover'', 0),
      (''Other'', 0)] \<and>
   categories (generic_scan '' | '' no_time []) =
     [(''Search'', 0), (''YouTube'', 0), (''Maps'', 0), (''Shopping'', 0), (''Discover'', 0),
      (''Other'', 0)] \<and>
   categories (search_scan no_time ([] @ [maps_block])) = [(''Search'', 0), (''Other'', 1)] \<and>
   categories (search_scan no_time []) = [(''Search'', 0), (''Other'', 0)] \<and>
   fst (analyze_youtube_file no_time [watch_search_block]) =
     [(''YouTube'', 1), (''Search'', 1), (''Maps'', 0), (''Shopping'', 0), (''Discover'', 0),
      (''Other'', 0)]"
proof -
  have a: "video_titles (youtube_scan no_time [watch_search_block]) = [''funny cats'']"
    unfolding watch_search_block_def by code_simp
  have b: "search_queries (youtube_scan no_time [watch_search_block]) = [''cats funny cats'']"
    unfolding watch_search_block_def by code_simp
  have g: "categories (generic_scan '' | '' no_time ([] @ [maps_block])) =
     [(''Search'', 0), (''YouTube'', 0), (''Maps'', 1), (''Shopping'', 0), (''Discover'', 0),
      (''Other'', 0)]"
    unfolding maps_block_def text_block_def by code_simp
  have g0: "categories (generic_scan '' | '' no_time []) =
     [(''Search'', 0), (''YouTube'', 0), (''Maps'', 0), (''Shopping'', 0), (''Discover'', 0),
      (''Other'', 0)]"
    by code_simp
  have s: "categories (search_scan no_time ([] @ [maps_block])) = [(''Search'', 0), (''Other'', 1)]"
    unfolding maps_block_def text_block_def by code_simp
  have s0: "categories (search_scan no_time []) = [(''Search'', 0), (''Other'', 0)]"
    by code_simp
  from one_counter_per_block [of "'' | ''" no_time "[]" maps_block "[watch_search_block]"]
  have "fst (analyze_youtube_file no_time [watch_search_block]) =
     [(''YouTube'', length (video_titles (youtube_scan no_time [watch_search_block]))),
      (''Search'', length (search_queries (youtube_scan no_time [watch_search_block]))),
      (''Maps'', 0), (''Shopping'', 0), (''Discover'', 0), (''Other'', 0)]"
    by blast
  then show ?thesis using g g0 s s0 by (simp add: a b)
qed

text \<open>
  Claim C1 fails as it is stated. In the YouTube analyzer a block without a phrase and
  without a link raises no counter, and a block with a phrase and a YouTube link raises
  two; in the Discover analyzer a block that qualifies and holds no item line raises no
  counter.
\<close>

theorem blocks_without_single_increment:
  "fst (analyze_youtube_file no_time ([] @ [plain_block])) = fst (analyze_youtube_file no_time []) \<and>
   fst (analyze_youtube_file no_time []) =
     [(''YouTube'', 0), (''Search'', 0), (''Maps'', 0), (''Shopping'', 0), (''Discover'', 0),
      (''Other'', 0)] \<and>
   fst (analyze_youtube_file no_time ([] @ [watch_search_block])) =
     [(''YouTube'', 1), (''Search'', 1), (''Maps'', 0), (''Shopping'', 0), (''Discover'', 0),
      (''Other'', 0)] \<and>
   contains ''discover'' (str_lower (get_text [CHR 0x0A] (texts bare_discover_block))) \<and>
   fst (analyze_discover_file no_time ([] @ [bare_discover_block])) =
     fst (analyze_discover_file no_time [])"
  unfolding plain_block_def watch_search_block_def bare_discover_block_def text_block_def
  by code_simp

subsection \<open>Ranked items\<close>

lemma clean_top5_item_Nil: "clean_top5_item [] = []"
  by (simp add: clean_top5_item_def split_ws_def strip_def)

lemma cleaned_items_eq:
  "filter (\<lambda>x. x \<noteq> []) (map (\<lambda>x. clean_top5_item (clean_text x)) (filter (\<lambda>x. clean_text x \<noteq> []) its)) =
   spec_cleaned its"
  unfolding spec_cleaned_def by (induction its) (simp_all add: clean_top5_item_Nil)

lemma top5_from_list_eq:
  "top5_from_list its =
     (if spec_cleaned its = [] then no_data else most_common 5 (Counter (spec_cleaned its)))"
  by (simp add: top5_from_list_def Let_def cleaned_items_eq)

lemma counter_add_positive:
  "\<forall>e\<in>set c. 0 < snd e \<Longrightarrow> \<forall>e\<in>set (counter_add x c). 0 < snd e"
  by (induction c) (force split: if_splits)+

lemma counter_add_nonempty: "counter_add x c \<noteq> []"
  by (cases c) (auto split: if_splits)

lemma Counter_fold_positive:
  "\<forall>e\<in>set c0. 0 < snd e \<Longrightarrow> \<forall>e\<in>set (foldl (\<lambda>c x. counter_add x c) c0 xs). 0 < snd e"
proof (induction xs arbitrary: c0)
  case Nil
  then show ?case by simp
next
  case (Cons a xs)
  have "\<forall>e\<in>set (counter_add a c0). 0 < snd e"
    using Cons.prems by (rule counter_add_positive)
  then show ?case using Cons.IH by simp
qed

lemma Counter_fold_nonempty:
  "c0 \<noteq> [] \<Longrightarrow> foldl (\<lambda>c x. counter_add x c) c0 xs \<noteq> []"
  by (induction xs arbitrary: c0) (simp_all add: counter_add_nonempty)

lemma Counter_positive: "\<forall>e\<in>set (Counter xs). 0 < snd e"
  unfolding Counter_def by (rule Counter_fold_positive) simp

lemma Counter_nonempty: "xs \<noteq> [] \<Longrightarrow> Counter xs \<noteq> []"
  unfolding Counter_def by (cases xs) (simp_all add: Counter_fold_nonempty counter_add_nonempty)

lemma most_common_length: "length (most_common n c) \<le> n"
  by (simp add: most_common_def)

lemma most_common_set: "set (most_common n c) \<subseteq> set c"
  unfolding most_common_def by (metis set_sort set_take_subset)

lemma most_common_nonempty: "c \<noteq> [] \<Longrightarrow> 0 < n \<Longrightarrow> most_common n c \<noteq> []"
proof -
  assume "c \<noteq> []" "0 < n"
  then have "0 < length (most_common n c)" by (simp add: most_common_def)
  then show ?thesis by auto
qed

lemma most_common_Counter_not_sentinel:
  assumes "xs \<noteq> []"
  shows "most_common 5 (Counter xs) \<noteq> [(l, 0)]"
proof
  assume e: "most_common 5 (Counter xs) = [(l, 0)]"
  then have "(l, 0) \<in> set (most_common 5 (Counter xs))" by simp
  then have "(l, 0) \<in> set (Counter xs)" using most_common_set by blast
  then show False using Counter_positive by fastforce
qed

text \<open>
  Claim C4. For every list of items, \<open>top5_from_list\<close> returns at most five entries,
  and it returns the single entry \<open>("No data found", 0)\<close> exactly when the list of the
  normalised and noise-filtered items, the empty ones dropped, is empty.
\<close>

theorem top5_at_most_five:
  "length (top5_from_list its) \<le> 5 \<and>
   (top5_from_list its = [(''No data found'', 0)] \<longleftrightarrow> spec_cleaned its = [])"
proof (cases "spec_cleaned its = []")
  case True
  then show ?thesis by (simp add: top5_from_list_eq no_data_def)
next
  case False
  then show ?thesis
    using most_common_length [of 5 "Counter (spec_cleaned its)"]
      most_common_Counter_not_sentinel [OF False, of "''No data found''"]
    by (simp add: top5_from_list_eq)
qed

lemma top5_positive_counts:
  "spec_cleaned its \<noteq> [] \<Longrightarrow> top5_from_list its \<noteq> [] \<and> (\<forall>e\<in>set (top5_from_list its). 0 < snd e)"
  using most_common_set [of 5 "Counter (spec_cleaned its)"] Counter_positive [of "spec_cleaned its"]
  by (auto simp: top5_from_list_eq most_common_nonempty Counter_nonempty)

lemma top5_tie_break:
  "top5_from_list [''aaa'', ''aaa'', ''bbb'', ''bbb''] = [(''aaa'', 2), (''bbb'', 2)]"
  by code_simp

lemma discover_lines_items:
  "x \<in> set (discover_lines rows) \<Longrightarrow> x \<noteq> [] \<and> normal x"
proof (induction rows rule: discover_lines.induct)
  case 1
  then show ?case by simp
next
  case (2 row rows)
  then show ?case
    by (auto simp: Let_def normal_clean_text split: if_splits)
qed

lemma discover_step_items:
  assumes "\<forall>x\<in>set (dc_items st). x \<noteq> [] \<and> normal x"
  shows "\<forall>x\<in>set (dc_items (discover_step parse st b)). x \<noteq> [] \<and> normal x"
proof -
  have "\<forall>x\<in>set (dc_items st @ discover_lines rows). x \<noteq> [] \<and> normal x" for rows
    using assms discover_lines_items by auto
  then show ?thesis using assms by (simp add: discover_step_def Let_def)
qed

lemma discover_scan_snoc:
  "discover_scan parse (bs @ [b]) = discover_step parse (discover_scan parse bs) b"
  by (simp add: discover_scan_def)

lemma discover_scan_items:
  "\<forall>x\<in>set (dc_items (discover_scan parse bs)). x \<noteq> [] \<and> normal x"
proof (induction bs rule: rev_induct)
  case Nil
  show ?case by (simp add: discover_scan_def discover_init_def)
next
  case (snoc b bs)
  then show ?case unfolding discover_scan_snoc by (rule discover_step_items)
qed

lemma normalised_items_fixed:
  assumes "\<forall>x\<in>set its. x \<noteq> [] \<and> normal x"
  shows "filter (\<lambda>x. x \<noteq> []) (map clean_text its) = its"
proof -
  have "map clean_text its = its" using assms by (intro map_idI) (simp add: clean_text_fixed)
  moreover have "filter (\<lambda>x. x \<noteq> []) its = its" using assms by (intro filter_True) simp
  ultimately show ?thesis by simp
qed

lemma spec_cleaned_fixed:
  assumes "\<forall>x\<in>set its. x \<noteq> [] \<and> normal x" and "\<forall>x\<in>set its. clean_top5_item x = x"
  shows "spec_cleaned its = its"
proof -
  have "map (\<lambda>x. clean_top5_item (clean_text x)) its = its"
    using assms by (intro map_idI) (simp add: clean_text_fixed)
  moreover have "filter (\<lambda>x. x \<noteq> []) its = its" using assms by (intro filter_True) simp
  ultimately show ?thesis by (simp add: spec_cleaned_def)
qed

text \<open>
  Claim C3, as the code has it. The ranked list of the Discover analyzer is the result
  of the aggregation path without the noise-word filter, applied to the items it has
  collected: normalise, drop the empty results, count, take the five most frequent, the
  sentinel for an empty list. It is the result of \<open>top5_from_list\<close> on these items
  whenever the noise-word filter changes none of them.
\<close>

theorem discover_ranked_unfiltered:
  "fst (snd (analyze_discover_file parse soup)) = top5_unfiltered (dc_items (discover_scan parse soup)) \<and>
   ((\<forall>x\<in>set (dc_items (discover_scan parse soup)). clean_top5_item x = x) \<longrightarrow>
      fst (snd (analyze_discover_file parse soup)) = top5_from_list (dc_items (discover_scan parse soup)))"
proof (intro conjI impI)
  let ?its = "dc_items (discover_scan parse soup)"
  have n: "\<forall>x\<in>set ?its. x \<noteq> [] \<and> normal x" by (rule discover_scan_items)
  have r: "fst (snd (analyze_discover_file parse soup)) =
             (if ?its \<noteq> [] then most_common 5 (Counter ?its) else no_data)"
    by (simp add: analyze_discover_file_def Let_def)
  show u: "fst (snd (analyze_discover_file parse soup)) = top5_unfiltered ?its"
    using r by (simp add: top5_unfiltered_def Let_def normalised_items_fixed [OF n])
  assume "\<forall>x\<in>set ?its. clean_top5_item x = x"
  then have "spec_cleaned ?its = ?its" using n by (intro spec_cleaned_fixed) simp_all
  then show "fst (snd (analyze_discover_file parse soup)) = top5_from_list ?its"
    using r by (simp add: top5_from_list_eq)
qed

lemma news_feed_items:
  "dc_items (discover_scan no_time [news_feed_block]) = [''big news'', ''other story'', ''big news'']"
  unfolding news_feed_block_def by code_simp

theorem discover_ranked_unfiltered_witness:
  "dc_items (discover_scan no_time [news_feed_block]) = [''big news'', ''other story'', ''big news''] \<and>
   clean_top5_item ''big news'' = ''big news'' \<and> clean_top5_item ''other story'' = ''other story'' \<and>
   fst (snd (analyze_discover_file no_time [news_feed_block])) =
     top5_unfiltered [''big news'', ''other story'', ''big news''] \<and>
   fst (snd (analyze_discover_file no_time [news_feed_block])) =
     top5_from_list [''big news'', ''other story'', ''big news''] \<and>
   top5_from_list [''big news'', ''other story'', ''big news''] = [(''big news'', 2), (''other story'', 1)]"
proof -
  have 1: "clean_top5_item ''big news'' = ''big news''" by code_simp
  have 2: "clean_top5_item ''other story'' = ''other story''" by code_simp
  have 3: "top5_from_list [''big news'', ''other story'', ''big news''] =
             [(''big news'', 2), (''other story'', 1)]"
    by code_simp
  have "\<forall>x\<in>set (dc_items (discover_scan no_time [news_feed_block])). clean_top5_item x = x"
    by (simp add: news_feed_items 1 2)
  with discover_ranked_unfiltered [of no_time "[news_feed_block]"]
  have "fst (snd (analyze_discover_file no_time [news_feed_block])) =
          top5_unfiltered (dc_items (discover_scan no_time [news_feed_block])) \<and>
        fst (snd (analyze_discover_file no_time [news_feed_block])) =
          top5_from_list (dc_items (discover_scan no_time [news_feed_block]))"
    by blast
  then have "fst (snd (analyze_discover_file no_time [news_feed_block])) =
          top5_unfiltered [''big news'', ''other story'', ''big news''] \<and>
        fst (snd (analyze_discover_file no_time [news_feed_block])) =
          top5_from_list [''big news'', ''other story'', ''big news'']"
    unfolding news_feed_items .
  then show ?thesis using 1 2 3 news_feed_items by blast
qed

text \<open>
  Claim C3 fails as it is stated. The Discover analyzer counts its items with a counter
  of its own and does not call \<open>top5_from_list\<close>: the noise-word filter is not applied.
  From a block with the lines \<open>Discover\<close> and \<open>click here\<close> it collects the item
  \<open>click here\<close> and ranks it, whereas \<open>top5_from_list\<close> on this item returns the
  sentinel.
\<close>

theorem discover_skips_noise_filter:
  "dc_items (discover_scan no_time [noise_feed_block]) = [''click here''] \<and>
   fst (snd (analyze_discover_file no_time [noise_feed_block])) = [(''click here'', 1)] \<and>
   top5_from_list [''click here''] = [(''No data found'', 0)]"
  unfolding noise_feed_block_def by code_simp

subsection \<open>Risk score\<close>

lemma clamp_is_finite:
  "\<exists>c. py_max (of_py_int 0) (py_min (of_py_int 100) x) = Finite c \<and> 0 \<le> c \<and> c \<le> 100"
  by (cases x) (auto simp: py_max_def py_min_def of_py_int_def)

lemma trunc_range: "0 \<le> c \<Longrightarrow> c \<le> 100 \<Longrightarrow> 0 \<le> trunc c \<and> trunc c \<le> 100"
  by (auto simp: trunc_def floor_le_iff)

lemma risk_percent_of_range:
  "\<exists>p. risk_percent_of fp t = Inr p \<and> 0 \<le> p \<and> p \<le> 100"
proof -
  obtain c where c: "py_max (of_py_int 0) (py_min (of_py_int 100)
       (fmul fp (fdiv fp t (Finite 15)) (of_py_int 100))) = Finite c" "0 \<le> c" "c \<le> 100"
    using clamp_is_finite by blast
  then show ?thesis using trunc_range [of c] by (simp add: risk_percent_of_def)
qed

lemma float_le_zero_cases: "float_le x (Finite 0) \<longleftrightarrow> x = NegInf \<or> (\<exists>v. x = Finite v \<and> v \<le> 0)"
  by (cases x) (auto simp: float_le_def)

lemma float_ge_hundred_cases:
  "float_le (Finite 100) x \<longleftrightarrow> x = PosInf \<or> (\<exists>v. x = Finite v \<and> 100 \<le> v)"
  by (cases x) (auto simp: float_le_def)

lemma risk_percent_of_spec:
  assumes "mul100_sound fp"
  shows "risk_percent_of fp t = spec_percent fp t"
proof -
  let ?m = "\<lambda>a. fmul fp a (Finite 100)"
  let ?q = "fdiv fp t (Finite 15)"
  have m0: "?m (Finite 0) = Finite 0" and m1: "?m (Finite 1) = Finite 100"
    and mn: "?m NaN = NaN"
    and mono: "\<And>a b. float_le a b \<Longrightarrow> float_le (?m a) (?m b)"
    using assms by (simp_all add: mul100_sound_def of_py_int_def)
  have low: "float_int (py_max (Finite 0) (py_min (Finite 100) (?m a))) = Inr 0"
    if "float_le a (Finite 0)" for a
  proof -
    from mono [OF that] have "float_le (?m a) (Finite 0)" by (simp add: m0)
    then show ?thesis
      by (auto simp: float_le_zero_cases py_max_def py_min_def trunc_def)
  qed
  have high: "float_int (py_max (Finite 0) (py_min (Finite 100) (?m a))) = Inr 100"
    if "float_le (Finite 1) a" for a
  proof -
    from mono [OF that] have "float_le (Finite 100) (?m a)" by (simp add: m1)
    then show ?thesis
      by (auto simp: float_ge_hundred_cases py_max_def py_min_def trunc_def)
  qed
  have mid: "float_int (py_max (Finite 0) (py_min (Finite 100) (?m (Finite v)))) =
             float_int (?m (Finite v))"
    if "0 < v" "v < 1" for v
  proof -
    have "float_le (Finite 0) (Finite v)" "float_le (Finite v) (Finite 1)"
      using that by (simp_all add: float_le_def)
    then have "float_le (Finite 0) (?m (Finite v))" "float_le (?m (Finite v)) (Finite 100)"
      using mono [of "Finite 0" "Finite v"] mono [of "Finite v" "Finite 1"] by (simp_all add: m0 m1)
    then show ?thesis
      by (cases "?m (Finite v)") (auto simp: float_le_def py_max_def py_min_def)
  qed
  have s0: "float_int (?m (Finite 0)) = Inr 0" by (simp add: m0 trunc_def)
  have s1: "float_int (?m (Finite 1)) = Inr 100" by (simp add: m1 trunc_def)
  have "float_int (py_max (Finite 0) (py_min (Finite 100) (?m ?q))) =
        float_int (?m (py_max (Finite 0) (py_min (Finite 1) ?q)))"
  proof (cases ?q)
    case (Finite v)
    consider "v \<le> 0" | "0 < v" "v < 1" | "1 \<le> v" by linarith
    then show ?thesis
    proof cases
      case 1
      then have "float_le (Finite v) (Finite 0)" by (auto simp: float_le_def)
      from low [OF this] 1 show ?thesis by (simp add: Finite py_max_def py_min_def s0)
    next
      case 2
      from mid [OF 2] 2 show ?thesis by (simp add: Finite py_max_def py_min_def)
    next
      case 3
      then have "float_le (Finite 1) (Finite v)" by (auto simp: float_le_def)
      from high [OF this] 3 show ?thesis by (simp add: Finite py_max_def py_min_def s1)
    qed
  next
    case PosInf
    have "float_le (Finite 1) PosInf" by (simp add: float_le_def)
    from high [OF this] show ?thesis by (simp add: PosInf py_max_def py_min_def s1)
  next
    case NegInf
    have "float_le NegInf (Finite 0)" by (simp add: float_le_def)
    from low [OF this] show ?thesis by (simp add: NegInf py_max_def py_min_def s0)
  next
    case NaN
    show ?thesis by (simp add: NaN mn py_max_def py_min_def s1 trunc_def)
  qed
  then show ?thesis
    by (simp add: risk_percent_of_def spec_percent_def spec_clamp_def of_py_int_def)
qed

lemma risk_of_total_returns:
  "\<exists>p. risk_percent_of fp t = Inr p \<and> 0 \<le> p \<and> p \<le> 100 \<and>
       risk_of_total fp t = Inr (tier_of_total t p)"
  using risk_percent_of_range [of fp t] by (auto simp: risk_of_total_def)

lemma risk_percent_tier: "risk_percent (tier_of_total t p) = p"
  by (simp add: tier_of_total_def)

lemma recent_loop_returns_iff:
  "(\<exists>v. recent_loop fp now acc ts = Inr v) \<longleftrightarrow> (\<forall>t\<in>set ts. \<exists>v. decay fp now t = Inr v)"
proof (induction ts arbitrary: acc)
  case Nil
  show ?case by simp
next
  case (Cons t ts)
  show ?case
  proof (cases "decay fp now t")
    case (Inl e)
    then show ?thesis by simp
  next
    case (Inr v)
    then show ?thesis using Cons.IH [of "fadd fp acc v"] by simp
  qed
qed

lemma total_risk_returns_iff:
  "(\<exists>tot. total_risk_of fp now cats ts = Inr tot) \<longleftrightarrow>
   (\<forall>t\<in>set ts. \<exists>v. decay fp now t = Inr v)"
proof (cases "ts = []")
  case True
  then show ?thesis by (simp add: total_risk_of_def)
next
  case False
  have "(\<exists>tot. total_risk_of fp now cats ts = Inr tot) \<longleftrightarrow>
        (\<exists>v. recent_loop fp now (of_py_int 0) ts = Inr v)"
    using False by (auto simp: total_risk_of_def Let_def split: sum.splits)
  then show ?thesis by (simp add: recent_loop_returns_iff)
qed

lemma calculate_risk_returns_iff:
  "(\<exists>r. calculate_risk fp now cats ts = Inr r) \<longleftrightarrow>
   (\<forall>t\<in>set ts. \<exists>v. decay fp now t = Inr v)"
proof -
  have "(\<exists>r. calculate_risk fp now cats ts = Inr r) \<longleftrightarrow>
        (\<exists>tot. total_risk_of fp now cats ts = Inr tot)"
    using risk_of_total_returns [of fp]
    by (cases "total_risk_of fp now cats ts") (auto simp: calculate_risk_def)
  then show ?thesis by (simp add: total_risk_returns_iff)
qed

lemma calculate_risk_of_total:
  assumes "total_risk_of fp now cats ts = Inr tot"
  shows "\<exists>p. risk_percent_of fp tot = Inr p \<and> 0 \<le> p \<and> p \<le> 100 \<and>
             calculate_risk fp now cats ts = Inr (tier_of_total tot p)"
  using risk_of_total_returns [of fp tot] assms by (simp add: calculate_risk_def)

text \<open>
  Claim C5, as the code has it. For every table of counts (the counts are natural
  numbers, 10000 records of Maps among them) and every list of timestamps on which no
  call of \<open>math.exp\<close> raises, \<open>calculate_risk\<close> returns an assessment; its percent is an
  integer between 0 and 100, whatever the rounding of the arithmetic; and it is
  \<open>clamp(total/15, 0, 1) * 100\<close> truncated toward zero, \<open>total\<close> being the total risk
  score computed, where the product with 100 is exact at 0 and at 1 and monotone, as the
  product of the machine is.
\<close>

theorem percent_clamped:
  assumes "\<forall>t\<in>set ts. \<exists>v. decay fp now t = Inr v"
  shows "\<exists>r tot. calculate_risk fp now cats ts = Inr r \<and>
           total_risk_of fp now cats ts = Inr tot \<and>
           0 \<le> risk_percent r \<and> risk_percent r \<le> 100 \<and>
           (mul100_sound fp \<longrightarrow> spec_percent fp tot = Inr (risk_percent r))"
proof -
  from assms obtain tot where t: "total_risk_of fp now cats ts = Inr tot"
    using total_risk_returns_iff [of fp now cats ts] by blast
  from calculate_risk_of_total [OF t] obtain p where
    p: "risk_percent_of fp tot = Inr p" "0 \<le> p" "p \<le> 100" and
    c: "calculate_risk fp now cats ts = Inr (tier_of_total tot p)"
    by blast
  have "mul100_sound fp \<longrightarrow> spec_percent fp tot = Inr p"
    using p(1) risk_percent_of_spec [of fp tot] by auto
  then show ?thesis using t p c by (auto simp: risk_percent_tier)
qed

lemma float_lt_not_le: "float_lt a b \<Longrightarrow> \<not> float_le b a"
  by (cases a; cases b) (auto simp: float_le_def)

text \<open>
  Claim C6. The tier is chosen from the total score, not from the percent: a total of at
  most 3 gives Low, a total above 3 and at most 10 gives Medium, a total above 10 gives
  High; and each tier returns its colour, its headline and its three suggestions, in
  order, as the literal texts of the interface section, code point for code point.
\<close>

theorem tier_by_total:
  assumes "calculate_risk fp now cats ts = Inr r"
  shows "\<exists>tot. total_risk_of fp now cats ts = Inr tot \<and>
     (float_le tot (Finite 3) \<longrightarrow>
        risk_level r = ustr ''Low'' \<and> risk_color r = ustr ''green'' \<and>
        risk_message r = ustr ''Low tracking detected.'' \<and>
        risk_suggestions r =
          [ustr ''Keep privacy settings reviewed monthly.'',
           ustr ''Use incognito for sensitive searches.'',
           ustr ''Periodically clear browsing history.'']) \<and>
     (float_lt (Finite 3) tot \<and> float_le tot (Finite 10) \<longrightarrow>
        risk_level r = ustr ''Medium'' \<and> risk_color r = ustr ''#ffcc00'' \<and>
        risk_message r = ustr ''Moderate tracking detected.'' \<and>
        risk_suggestions r =
          [ustr ''Turn off Location History in Google settings.'',
           ustr ''Review connected apps and revoke unused permissions.'',
           ustr ''Use a privacy-focused browser (Brave/Firefox) for routine browsing.'']) \<and>
     (float_lt (Finite 10) tot \<longrightarrow>
        risk_level r = ustr ''High'' \<and> risk_color r = ustr ''red'' \<and>
        risk_message r = ustr ''Heavy tracking detected recently.'' \<and>
        risk_suggestions r =
          [ustr ''Pause Web & App Activity (Google Account '' @ [0x25B6] @
             ustr '' Data & privacy).'',
           ustr ''Delete recent activity from My Activity.'',
           ustr ''Consider a VPN for browsing and disable ad personalization.''])"
proof -
  from assms obtain tot where t: "total_risk_of fp now cats ts = Inr tot"
    by (cases "total_risk_of fp now cats ts") (auto simp: calculate_risk_def)
  from calculate_risk_of_total [OF t] assms obtain p where r: "r = tier_of_total tot p"
    by auto
  have le: "float_lt (Finite 3) tot \<Longrightarrow> \<not> float_le tot (Finite 3)"
    by (rule float_lt_not_le)
  have "float_lt (Finite 10) tot \<Longrightarrow> float_lt (Finite 3) tot" by (cases tot) auto
  then have hi: "float_lt (Finite 10) tot \<Longrightarrow> \<not> float_le tot (Finite 3) \<and> \<not> float_le tot (Finite 10)"
    using float_lt_not_le by blast
  show ?thesis
  proof (intro exI conjI impI)
    show "total_risk_of fp now cats ts = Inr tot" by (rule t)
  qed (use le hi in \<open>simp_all add: r tier_of_total_def of_py_int_def\<close>)
qed

lemma high_suggestion_length:
  "length (ustr ''Pause Web & App Activity (Google Account '' @ [0x25B6] @ ustr '' Data & privacy).'') = 59"
  by (simp add: ustr_def)

lemma exact_ops_simps:
  "fadd exact_ops = exact_add" "fmul exact_ops = exact_mul" "fdiv exact_ops = exact_div"
  "flog exact_ops n = Finite (ln (real n))" "fexp exact_ops = exact_exp"
  by (simp_all add: exact_ops_def)

lemma exact_mul_100: 
  "exact_mul a (Finite 100) =
     (case a of Finite v \<Rightarrow> Finite (v * 100) | PosInf \<Rightarrow> PosInf | NegInf \<Rightarrow> NegInf | NaN \<Rightarrow> NaN)"
  by (cases a) simp_all

lemma mul100_sound_exact: "mul100_sound exact_ops"
proof -
  have "float_le (exact_mul a (Finite 100)) (exact_mul b (Finite 100))" if "float_le a b" for a b
    using that by (cases a; cases b) (auto simp: float_le_def)
  then show ?thesis
    by (simp add: mul100_sound_def exact_ops_simps of_py_int_def)
qed

lemma DBL_MAX_ge_1: "1 \<le> DBL_MAX"
  unfolding DBL_MAX_def by simp

lemma days_ago_nonneg: "t \<le> now \<Longrightarrow> 0 \<le> days_ago now t"
  by (simp add: days_ago_def pos_imp_zdiv_nonneg_iff)

lemma decay_exact:
  "decay exact_ops now t =
     (if DBL_MAX < exp (- real_of_int (days_ago now t) / 7) then Inl OverflowError
      else Inr (Finite (exp (- real_of_int (days_ago now t) / 7))))"
  by (simp add: decay_def exact_ops_simps of_py_int_def)

lemma decay_exact_past:
  assumes "t \<le> now"
  shows "decay exact_ops now t = Inr (Finite (exp (- real_of_int (days_ago now t) / 7)))"
proof -
  have "0 \<le> days_ago now t" using assms by (rule days_ago_nonneg)
  then have "exp (- real_of_int (days_ago now t) / 7) \<le> 1" by simp
  then have "\<not> DBL_MAX < exp (- real_of_int (days_ago now t) / 7)"
    using DBL_MAX_ge_1 by linarith
  then show ?thesis by (simp add: decay_exact)
qed

lemma calculate_risk_exact_returns:
  "\<forall>t\<in>set ts. t \<le> now \<Longrightarrow> \<exists>r. calculate_risk exact_ops now cats ts = Inr r"
  using decay_exact_past by (simp add: calculate_risk_returns_iff)

lemma base_risk_no_activity: "base_risk exact_ops no_activity = Finite 0"
  by (simp add: base_risk_def no_activity_def exact_ops_simps of_py_int_def)

lemma base_risk_maps_only: "base_risk exact_ops maps_only = Finite (3 * ln 10001)"
  by (simp add: base_risk_def maps_only_def exact_ops_simps of_py_int_def weight_of_def weights_def)

lemma decay_exact_now: "decay exact_ops 0 0 = Inr (Finite 1)"
  using decay_exact_past [of 0 0] by (simp add: days_ago_def)

lemma total_maps_only:
  "total_risk_of exact_ops 0 maps_only [0] = Inr (Finite (3 * ln 10001 + 1))"
  by (simp add: total_risk_of_def base_risk_maps_only decay_exact_now exact_ops_simps of_py_int_def)

lemma total_no_activity: "total_risk_of exact_ops 0 no_activity [] = Inr (Finite 0)"
  by (simp add: total_risk_of_def base_risk_no_activity exact_ops_simps of_py_int_def)

lemma exp_5_le: "exp (5::real) \<le> 243"
proof -
  have "exp (5::real) = exp (real 5 * 1)" by simp
  also have "\<dots> = exp 1 ^ 5" by (rule exp_of_nat_mult)
  also have "\<dots> \<le> 3 ^ 5" by (rule power_mono) (simp_all add: exp_le)
  finally show ?thesis by simp
qed

lemma ln_10001: "5 < ln (10001::real)"
proof -
  have "exp (5::real) < 10001" using exp_5_le by linarith
  also have "(10001::real) = exp (ln 10001)" by simp
  finally show ?thesis by (simp only: exp_less_cancel_iff)
qed

lemma percent_maps_only: "risk_percent_of exact_ops (Finite (3 * ln 10001 + 1)) = Inr 100"
proof -
  have "100 \<le> (3 * ln (10001::real) + 1) / 15 * 100" using ln_10001 by simp
  then show ?thesis
    by (simp add: risk_percent_of_def exact_ops_simps of_py_int_def py_min_def py_max_def trunc_def)
qed

theorem percent_clamped_witness:
  "decay exact_ops 0 0 = Inr (Finite 1) \<and>
   total_risk_of exact_ops 0 maps_only [0] = Inr (Finite (3 * ln 10001 + 1)) \<and>
   map_sum id risk_percent (calculate_risk exact_ops 0 maps_only [0]) = Inr 100 \<and>
   spec_percent exact_ops (Finite (3 * ln 10001 + 1)) = Inr 100"
proof -
  have h: "\<forall>t\<in>set [0]. \<exists>v. decay exact_ops 0 t = Inr v" by (simp add: decay_exact_now)
  from percent_clamped [OF h, of maps_only] obtain r tot where
    c: "calculate_risk exact_ops 0 maps_only [0] = Inr r" and
    t: "total_risk_of exact_ops 0 maps_only [0] = Inr tot" and
    s: "mul100_sound exact_ops \<longrightarrow> spec_percent exact_ops tot = Inr (risk_percent r)"
    by blast
  from t have tot: "tot = Finite (3 * ln 10001 + 1)" by (simp add: total_maps_only)
  have "risk_of_total exact_ops tot = Inr r" using c by (simp add: calculate_risk_def t)
  then have p: "risk_percent r = 100"
    unfolding tot by (auto simp: risk_of_total_def percent_maps_only risk_percent_tier)
  have "spec_percent exact_ops (Finite (3 * ln 10001 + 1)) = Inr 100"
    using s mul100_sound_exact by (simp add: tot p)
  then show ?thesis using c p by (simp add: decay_exact_now total_maps_only)
qed

theorem tier_by_total_witness:
  "total_risk_of exact_ops 0 no_activity [] = Inr (Finite 0) \<and>
   float_le (Finite 0) (Finite 3) \<and>
   calculate_risk exact_ops 0 no_activity [] =
     Inr \<lparr>risk_level = ustr ''Low'', risk_color = ustr ''green'',
          risk_message = ustr ''Low tracking detected.'',
          risk_suggestions =
            [ustr ''Keep privacy settings reviewed monthly.'',
             ustr ''Use incognito for sensitive searches.'',
             ustr ''Periodically clear browsing history.''],
          risk_percent = 0\<rparr>"
proof -
  have p: "risk_percent_of exact_ops (Finite 0) = Inr 0"
    by (simp add: risk_percent_of_def exact_ops_simps of_py_int_def py_min_def py_max_def trunc_def)
  have le: "float_le (Finite 0) (Finite 3)" by (simp add: float_le_def)
  have c: "calculate_risk exact_ops 0 no_activity [] = Inr (tier_of_total (Finite 0) 0)"
    by (simp add: calculate_risk_def total_no_activity risk_of_total_def p)
  from tier_by_total [OF c] le have
    "risk_level (tier_of_total (Finite 0) 0) = ustr ''Low'' \<and>
     risk_color (tier_of_total (Finite 0) 0) = ustr ''green'' \<and>
     risk_message (tier_of_total (Finite 0) 0) = ustr ''Low tracking detected.'' \<and>
     risk_suggestions (tier_of_total (Finite 0) 0) =
       [ustr ''Keep privacy settings reviewed monthly.'',
        ustr ''Use incognito for sensitive searches.'',
        ustr ''Periodically clear browsing history.'']"
    by (simp add: total_no_activity)
  moreover have "risk_percent (tier_of_total (Finite 0) 0) = 0" by (rule risk_percent_tier)
  ultimately have "tier_of_total (Finite 0) 0 =
     \<lparr>risk_level = ustr ''Low'', risk_color = ustr ''green'',
          risk_message = ustr ''Low tracking detected.'',
          risk_suggestions =
            [ustr ''Keep privacy settings reviewed monthly.'',
             ustr ''Use incognito for sensitive searches.'',
             ustr ''Periodically clear browsing history.''],
          risk_percent = 0\<rparr>"
    by (cases "tier_of_total (Finite 0) 0") simp
  then show ?thesis using c le by (simp add: total_no_activity)
qed

lemma DBL_MAX_less: "DBL_MAX < 2 ^ 10000"
proof -
  have "DBL_MAX < (2::real) ^ 53 * 2 ^ 971" unfolding DBL_MAX_def by simp
  also have "\<dots> = 2 ^ 1024" by (simp add: power_add [symmetric])
  also have "\<dots> < (2::real) ^ 10000" by (rule power_strict_increasing) simp_all
  finally show ?thesis .
qed

lemma exp_10000: "(2::real) ^ 10000 \<le> exp 10000"
proof -
  have "(2::real) \<le> exp 1" using exp_ge_add_one_self [of 1] by simp
  then have "(2::real) ^ 10000 \<le> exp 1 ^ 10000" by (rule power_mono) simp
  also have "\<dots> = exp (real 10000 * 1)" by (rule exp_of_nat_mult [symmetric])
  finally show ?thesis by simp
qed

lemma days_ago_far_future: "days_ago 0 far_future = - 70000"
  by (simp add: days_ago_def far_future_def)

lemma decay_far_future: "decay exact_ops 0 far_future = Inl OverflowError"
proof -
  have "DBL_MAX < exp (- real_of_int (days_ago 0 far_future) / 7)"
    using DBL_MAX_less exp_10000 by (simp add: days_ago_far_future)
  then show ?thesis by (simp add: decay_exact)
qed

text \<open>
  Claim C5 fails as it is stated. A timestamp that lies 70000 days in the future is a
  timestamp like any other for \<open>calculate_risk\<close>: the argument of \<open>math.exp\<close> is 10000,
  \<open>math.exp\<close> raises OverflowError, and no assessment, hence no percent, is returned.
\<close>

theorem far_future_no_percent:
  "days_ago 0 far_future = - 70000 \<and>
   calculate_risk exact_ops 0 no_activity [far_future] = Inl OverflowError"
  by (simp add: days_ago_far_future calculate_risk_def total_risk_of_def decay_far_future)

lemma calculate_risk_raises:
  assumes "t \<in> set ts" and "decay fp now t = Inl e"
  shows "\<exists>e'. calculate_risk fp now cats ts = Inl e'"
proof (cases "calculate_risk fp now cats ts")
  case (Inl e')
  then show ?thesis by blast
next
  case (Inr r)
  then have "\<forall>t\<in>set ts. \<exists>v. decay fp now t = Inr v"
    using calculate_risk_returns_iff [of fp now cats ts] by blast
  then obtain v where "decay fp now t = Inr v" using assms(1) by blast
  then show ?thesis using assms(2) by simp
qed

end
